theory Spec2Isabelle
  imports Main "HOL-Library.Char_ord" "HOL-Library.List_Lexorder" "HOL-Library.Multiset"
begin

section \<open>Remote payloads and Python values\<close>

text \<open>
  The remote API answers in JSON. A decoded JSON value is one of the shapes below (the
  numbers the API sends are integers or strings of digits; fractions are not modelled);
  a Python dict is an association list read with \<open>map_of\<close> (the first entry of a
  key is the one a lookup sees).
\<close>

datatype jval =
    JNull
  | JBool bool
  | JInt int
  | JStr string
  | JList "jval list"
  | JDict "(string \<times> jval) list"

type_synonym pdict = "(string \<times> jval) list"

text \<open>Every exception the modelled code can raise.\<close>

datatype error =
    TransportError
  | ApiError string
  | KeyError string
  | ValueError
  | TypeError
  | OverflowError
  | InterfaceError

text \<open>A call either raises or returns; the state it leaves behind is kept beside it.\<close>

datatype 'a outcome = Raised error | Returned 'a

text \<open>Python truthiness, as used by \<^verbatim>\<open>if x:\<close>.\<close>

fun truthy :: "jval \<Rightarrow> bool" where
  "truthy JNull = False"
| "truthy (JBool b) = b"
| "truthy (JInt i) = (i \<noteq> 0)"
| "truthy (JStr s) = (s \<noteq> [])"
| "truthy (JList xs) = (xs \<noteq> [])"
| "truthy (JDict d) = (d \<noteq> [])"

text \<open>\<^verbatim>\<open>str(x)\<close>: decimal digits for an int; the \<^verbatim>\<open>repr\<close> of a list or
  a dict is Python's own and is taken as a parameter.\<close>

definition digit_char :: "nat \<Rightarrow> char" where
  "digit_char d = ''0123456789'' ! d"

fun nat_digits :: "nat \<Rightarrow> string" where
  "nat_digits n =
     (if n < 10 then [digit_char n] else nat_digits (n div 10) @ [digit_char (n mod 10)])"

definition int_str :: "int \<Rightarrow> string" where
  "int_str i = (if i < 0 then CHR ''-'' # nat_digits (nat (- i)) else nat_digits (nat i))"

fun py_str :: "(jval \<Rightarrow> string) \<Rightarrow> jval \<Rightarrow> string" where
  "py_str repr (JStr s) = s"
| "py_str repr (JInt i) = int_str i"
| "py_str repr JNull = ''None''"
| "py_str repr (JBool b) = (if b then ''True'' else ''False'')"
| "py_str repr (JList xs) = repr (JList xs)"
| "py_str repr (JDict d) = repr (JDict d)"

text \<open>\<^verbatim>\<open>int(x)\<close>: surrounding white space is dropped, one sign is allowed, the
  digits may be grouped by single underscores; anything else raises \<^verbatim>\<open>ValueError\<close>.\<close>

definition is_space :: "char \<Rightarrow> bool" where
  "is_space c = (c \<in> set [CHR '' '', CHR 0x09, CHR 0x0A, CHR 0x0B, CHR 0x0C, CHR 0x0D])"

definition strip :: "string \<Rightarrow> string" where
  "strip s = rev (dropWhile is_space (rev (dropWhile is_space s)))"

definition digit_val :: "char \<Rightarrow> nat option" where
  "digit_val c = map_of (zip ''0123456789'' [0 ..< 10]) c"

fun parse_digits :: "bool \<Rightarrow> nat \<Rightarrow> string \<Rightarrow> nat option" where
  "parse_digits prev acc [] = (if prev then Some acc else None)"
| "parse_digits prev acc (c # cs) =
     (if c = CHR ''_'' then (if prev then parse_digits False acc cs else None)
      else (case digit_val c of
              None \<Rightarrow> None
            | Some d \<Rightarrow> parse_digits True (10 * acc + d) cs))"

definition int_of_str :: "string \<Rightarrow> int outcome" where
  "int_of_str s =
     (let t = strip s;
          neg = (t \<noteq> [] \<and> hd t = CHR ''-'');
          body = (if t \<noteq> [] \<and> (hd t = CHR ''-'' \<or> hd t = CHR ''+'') then tl t else t)
      in case parse_digits False 0 body of
           None \<Rightarrow> Raised ValueError
         | Some n \<Rightarrow> Returned (if neg then - int n else int n))"

fun py_int :: "jval \<Rightarrow> int outcome" where
  "py_int (JInt i) = Returned i"
| "py_int (JBool b) = Returned (if b then 1 else 0)"
| "py_int (JStr s) = int_of_str s"
| "py_int JNull = Raised TypeError"
| "py_int (JList xs) = Raised TypeError"
| "py_int (JDict d) = Raised TypeError"

text \<open>\<^verbatim>\<open>sep.join(parts)\<close>.\<close>

fun join :: "string \<Rightarrow> string list \<Rightarrow> string" where
  "join sep [] = []"
| "join sep [x] = x"
| "join sep (x # y # ys) = x @ sep @ join sep (y # ys)"

section \<open>The database\<close>

text \<open>
  A value SQLite can store. Binding a Python list or dict as a statement parameter
  raises, and so does an int outside the signed 64-bit range; \<^verbatim>\<open>None\<close>, the other
  ints (bools among them) and strings are stored.
\<close>

datatype sqlval = SqlNull | SqlInt int | SqlText string

definition int64 :: "int \<Rightarrow> bool" where
  "int64 i = (- (2 ^ 63) \<le> i \<and> i < 2 ^ 63)"

fun sql_bind :: "jval \<Rightarrow> sqlval outcome" where
  "sql_bind JNull = Returned SqlNull"
| "sql_bind (JBool b) = Returned (SqlInt (if b then 1 else 0))"
| "sql_bind (JInt i) = (if int64 i then Returned (SqlInt i) else Raised OverflowError)"
| "sql_bind (JStr s) = Returned (SqlText s)"
| "sql_bind (JList xs) = Raised InterfaceError"
| "sql_bind (JDict d) = Raised InterfaceError"

record photo_row =
  album_id :: sqlval
  title :: sqlval
  description :: sqlval
  filename :: string
  thumbnail_path :: string
  date_taken :: string
  date_uploaded :: string
  views :: int
  tags :: sqlval
  url_original :: string
  url_thumbnail :: string

record link_row =
  link_photo_id :: string
  link_album_id :: string
  is_primary :: int
  date_added :: string

record album_row =
  album_title :: sqlval
  album_description :: string
  photo_count :: nat
  created_date :: string
  updated_date :: string

record comment_row =
  comment_id :: sqlval
  comment_photo_id :: string
  author :: sqlval
  comment_text :: sqlval
  date_created :: sqlval

text \<open>
  The four tables. \<open>photos\<close> and \<open>albums\<close> are keyed by their text primary key;
  \<open>photo_albums\<close> and \<open>comments\<close> are lists of rows, whose key constraints the
  insert statements below enforce.
\<close>

record db =
  photos :: "(string \<times> photo_row) list"
  photo_albums :: "link_row list"
  albums :: "(string \<times> album_row) list"
  comments :: "comment_row list"

definition empty_db :: db where
  "empty_db = \<lparr>photos = [], photo_albums = [], albums = [], comments = []\<rparr>"

text \<open>\<^verbatim>\<open>INSERT OR REPLACE\<close> on a table with a primary key: the row that holds the
  key is deleted, the new row is inserted.\<close>

definition insert_or_replace :: "'k \<Rightarrow> 'v \<Rightarrow> ('k \<times> 'v) list \<Rightarrow> ('k \<times> 'v) list" where
  "insert_or_replace k v t = filter (\<lambda>r. fst r \<noteq> k) t @ [(k, v)]"

definition link_key :: "link_row \<Rightarrow> string \<times> string" where
  "link_key r = (link_photo_id r, link_album_id r)"

text \<open>\<^verbatim>\<open>INSERT OR IGNORE INTO photo_albums\<close>, under
  \<^verbatim>\<open>PRIMARY KEY (photo_id, album_id)\<close>: a row whose key is taken is dropped.\<close>

definition insert_or_ignore :: "link_row \<Rightarrow> link_row list \<Rightarrow> link_row list" where
  "insert_or_ignore r t = (if link_key r \<in> set (map link_key t) then t else t @ [r])"

section \<open>The remote service\<close>

text \<open>
  A photo as the program holds it: the value of its key \<^verbatim>\<open>id\<close> (a string in every
  listing) and the rest of its JSON object.
\<close>

record photo =
  ph_id :: string
  ph_fields :: pdict

record album =
  al_id :: string
  al_title :: jval

text \<open>
  What one page request of a collection gives the caller: \<open>PageRaise\<close> when
  \<^verbatim>\<open>api_call\<close> raises (transport, HTTP status) or the payload lacks the keys read
  before the items are taken; \<open>PageFail\<close> when \<^verbatim>\<open>stat\<close> is not \<^verbatim>\<open>ok\<close>, with
  the message; \<open>PageOk\<close> with the items and the page count. The count is read
  after the items were taken: \<open>Pages n\<close> when the payload holds the number,
  \<open>NoPages e\<close> when reading or comparing it raises \<open>e\<close> (\<^verbatim>\<open>KeyError\<close> for a
  missing key, \<^verbatim>\<open>TypeError\<close> or \<^verbatim>\<open>ValueError\<close> for a value that is no number).
\<close>

datatype page_count = Pages int | NoPages error

datatype 'a page_response =
    PageRaise error
  | PageFail string
  | PageOk "'a list" page_count

text \<open>
  The world outside the program: the remote API per operation, the thumbnail host (the
  file extension of the stored thumbnail on success), the wall clock, and Python's
  \<^verbatim>\<open>repr\<close> of containers.
\<close>

record env =
  people_getPhotos :: "nat \<Rightarrow> photo page_response"
  photosets_getList :: "nat \<Rightarrow> album page_response"
  photosets_getPhotos :: "string \<Rightarrow> nat \<Rightarrow> photo page_response"
  photos_getInfo :: "string \<Rightarrow> pdict option outcome"
  comments_getList :: "string \<Rightarrow> pdict list"
  http_thumbnail :: "jval \<Rightarrow> string option"
  clock :: string
  py_repr :: "jval \<Rightarrow> string"

section \<open>The updater\<close>

datatype log_msg =
    MsgCheckingPhotostream int
  | MsgPhotostreamError string
  | MsgPhotostreamPageError nat
  | MsgPhotoError string
  | MsgAlbumsError
  | MsgAlbumError string

text \<open>What the program does to the outside, in order: requests, commits, additions to
  the in-memory index, and the messages it prints about errors (progress messages are
  left out).\<close>

datatype event =
    ApiPhotostreamPage nat
  | ApiAlbumsPage nat
  | ApiAlbumPhotosPage string nat
  | ApiGetInfo string
  | ThumbnailDownload string
  | ApiGetComments string
  | CommitComments string
  | CommitPhoto string
  | CommitLink string string
  | CommitAlbum string
  | IndexAdd string
  | Log log_msg

record updater =
  store :: db
  existing_photo_ids :: "string set"
  new_photos_count :: nat
  new_associations_count :: nat
  skipped_photos_count :: nat
  photostream_new_count :: nat
  trace :: "event list"

definition emit :: "event \<Rightarrow> updater \<Rightarrow> updater" where
  "emit e s = s\<lparr>trace := trace s @ [e]\<rparr>"

definition emits :: "event list \<Rightarrow> updater \<Rightarrow> updater" where
  "emits evs s = s\<lparr>trace := trace s @ evs\<rparr>"

definition obind ::
  "'a outcome \<times> 's \<Rightarrow> ('a \<Rightarrow> 's \<Rightarrow> 'b outcome \<times> 's) \<Rightarrow> 'b outcome \<times> 's" where
  "obind r f = (case r of (Raised e, s) \<Rightarrow> (Raised e, s) | (Returned a, s) \<Rightarrow> f a s)"

definition get_existing_photo_ids :: "db \<Rightarrow> string set" where
  "get_existing_photo_ids d = set (map fst (photos d))"

text \<open>\<^verbatim>\<open>ComprehensiveFlickrUpdater.__init__\<close>: counters at zero, the index read from
  the photos table; the tables exist already or are created empty.\<close>

definition init_updater :: "db \<Rightarrow> updater" where
  "init_updater d =
     \<lparr>store = d, existing_photo_ids = get_existing_photo_ids d,
      new_photos_count = 0, new_associations_count = 0, skipped_photos_count = 0,
      photostream_new_count = 0, trace = []\<rparr>"

definition photo_exists :: "updater \<Rightarrow> string \<Rightarrow> bool" where
  "photo_exists s pid = (pid \<in> existing_photo_ids s)"

definition photo_in_album :: "updater \<Rightarrow> string \<Rightarrow> string \<Rightarrow> bool" where
  "photo_in_album s pid aid =
     ((pid, aid) \<in> set (map link_key (photo_albums (store s))))"

subsection \<open>Persistence\<close>

text \<open>A value stored in a column of type TEXT: an integer is stored as its digits.\<close>

fun text_affinity :: "sqlval \<Rightarrow> sqlval" where
  "text_affinity (SqlInt i) = SqlText (int_str i)"
| "text_affinity v = v"

definition content_or_str :: "(jval \<Rightarrow> string) \<Rightarrow> pdict \<Rightarrow> string \<Rightarrow> jval" where
  "content_or_str repr d k =
     (case map_of d k of
        None \<Rightarrow> JStr []
      | Some (JDict c) \<Rightarrow> (case map_of c ''_content'' of None \<Rightarrow> JStr [] | Some v \<Rightarrow> v)
      | Some v \<Rightarrow> JStr (py_str repr v))"

definition tags_of :: "(jval \<Rightarrow> string) \<Rightarrow> pdict \<Rightarrow> jval" where
  "tags_of repr d =
     (case map_of d ''tags'' of
        None \<Rightarrow> JStr []
      | Some (JDict c) \<Rightarrow> (case map_of c ''_content'' of None \<Rightarrow> JStr [] | Some v \<Rightarrow> v)
      | Some (JList xs) \<Rightarrow> JStr (join '', '' (map (py_str repr) xs))
      | Some v \<Rightarrow> JStr (py_str repr v))"

definition str_or_empty :: "(jval \<Rightarrow> string) \<Rightarrow> pdict \<Rightarrow> string \<Rightarrow> string" where
  "str_or_empty repr d k = (case map_of d k of None \<Rightarrow> [] | Some v \<Rightarrow> py_str repr v)"

definition views_of :: "pdict \<Rightarrow> int outcome" where
  "views_of d =
     (case map_of d ''views'' of
        None \<Rightarrow> Returned 0
      | Some v \<Rightarrow> if truthy v then py_int v else Returned 0)"

text \<open>The row \<^verbatim>\<open>save_photo_metadata_standalone\<close> binds: the conversions run first
  (\<^verbatim>\<open>int\<close> of the views may raise), the statement then binds title, description,
  views and tags, in this order. The column \<open>album_id\<close> is not named by the statement
  and is left NULL.\<close>

definition photo_row_of :: "(jval \<Rightarrow> string) \<Rightarrow> photo \<Rightarrow> string option \<Rightarrow> photo_row outcome" where
  "photo_row_of repr photo_data thumb =
     (let d = ph_fields photo_data in
      case views_of d of
        Raised e \<Rightarrow> Raised e
      | Returned v \<Rightarrow>
      (case sql_bind (content_or_str repr d ''title'') of
        Raised e \<Rightarrow> Raised e
      | Returned t \<Rightarrow>
      (case sql_bind (content_or_str repr d ''description'') of
        Raised e \<Rightarrow> Raised e
      | Returned ds \<Rightarrow>
      (case sql_bind (JInt v) of
        Raised e \<Rightarrow> Raised e
      | Returned vw \<Rightarrow>
      (case sql_bind (tags_of repr d) of
        Raised e \<Rightarrow> Raised e
      | Returned tg \<Rightarrow>
          Returned
            \<lparr>album_id = SqlNull, title = text_affinity t, description = text_affinity ds,
             filename = ph_id photo_data @ ''.jpg'',
             thumbnail_path = (case thumb of None \<Rightarrow> [] | Some p \<Rightarrow> p),
             date_taken = str_or_empty repr d ''datetaken'',
             date_uploaded = str_or_empty repr d ''dateupload'',
             views = v, tags = text_affinity tg,
             url_original = str_or_empty repr d ''url_o'',
             url_thumbnail = str_or_empty repr d ''url_t''\<rparr>)))))"

definition save_photo_metadata_standalone ::
  "env \<Rightarrow> photo \<Rightarrow> string option \<Rightarrow> updater \<Rightarrow> unit outcome \<times> updater" where
  "save_photo_metadata_standalone env photo_data thumb s =
     (case photo_row_of (py_repr env) photo_data thumb of
        Raised e \<Rightarrow> (Raised e, s)
      | Returned r \<Rightarrow>
          (Returned (),
           emit (CommitPhoto (ph_id photo_data))
             (s\<lparr>store := (store s)\<lparr>photos :=
                  insert_or_replace (ph_id photo_data) r (photos (store s))\<rparr>\<rparr>)))"

definition save_photo_metadata_junction ::
  "env \<Rightarrow> photo \<Rightarrow> string \<Rightarrow> string option \<Rightarrow> updater \<Rightarrow> unit outcome \<times> updater" where
  "save_photo_metadata_junction env photo_data aid thumb s =
     obind (save_photo_metadata_standalone env photo_data thumb s)
       (\<lambda>_ s1.
          (Returned (),
           emit (CommitLink (ph_id photo_data) aid)
             (s1\<lparr>store := (store s1)\<lparr>photo_albums :=
                  insert_or_ignore
                    \<lparr>link_photo_id = ph_id photo_data, link_album_id = aid,
                     is_primary = 1, date_added = clock env\<rparr>
                    (photo_albums (store s1))\<rparr>\<rparr>)))"

text \<open>\<^verbatim>\<open>save_comments\<close>: nothing at all for an empty list; otherwise one statement per
  comment and one commit at the end, so a comment that lacks a key (or holds a value
  that cannot be bound) leaves the table as it was.\<close>

definition required :: "pdict \<Rightarrow> string \<Rightarrow> jval outcome" where
  "required d k = (case map_of d k of None \<Rightarrow> Raised (KeyError k) | Some v \<Rightarrow> Returned v)"

definition comment_row_of :: "string \<Rightarrow> pdict \<Rightarrow> comment_row outcome" where
  "comment_row_of pid c =
     (case required c ''id'' of Raised e \<Rightarrow> Raised e | Returned i \<Rightarrow>
     (case required c ''authorname'' of Raised e \<Rightarrow> Raised e | Returned a \<Rightarrow>
     (case required c ''_content'' of Raised e \<Rightarrow> Raised e | Returned t \<Rightarrow>
     (case required c ''datecreate'' of Raised e \<Rightarrow> Raised e | Returned dc \<Rightarrow>
     (case sql_bind i of Raised e \<Rightarrow> Raised e | Returned i' \<Rightarrow>
     (case sql_bind a of Raised e \<Rightarrow> Raised e | Returned a' \<Rightarrow>
     (case sql_bind t of Raised e \<Rightarrow> Raised e | Returned t' \<Rightarrow>
     (case sql_bind dc of Raised e \<Rightarrow> Raised e | Returned dc' \<Rightarrow>
        Returned
          \<lparr>comment_id = text_affinity i', comment_photo_id = pid,
           author = text_affinity a', comment_text = text_affinity t',
           date_created = text_affinity dc'\<rparr>))))))))"

definition replace_comment :: "comment_row \<Rightarrow> comment_row list \<Rightarrow> comment_row list" where
  "replace_comment c t =
     filter (\<lambda>r. comment_id r = SqlNull \<or> comment_id r \<noteq> comment_id c) t @ [c]"

fun insert_comments :: "string \<Rightarrow> pdict list \<Rightarrow> comment_row list \<Rightarrow> comment_row list outcome" where
  "insert_comments pid [] t = Returned t"
| "insert_comments pid (c # cs) t =
     (case comment_row_of pid c of
        Raised e \<Rightarrow> Raised e
      | Returned r \<Rightarrow> insert_comments pid cs (replace_comment r t))"

definition save_comments :: "string \<Rightarrow> pdict list \<Rightarrow> updater \<Rightarrow> unit outcome \<times> updater" where
  "save_comments pid cs s =
     (if cs = [] then (Returned (), s)
      else (case insert_comments pid cs (comments (store s)) of
              Raised e \<Rightarrow> (Raised e, s)
            | Returned t \<Rightarrow>
                (Returned (),
                 emit (CommitComments pid) (s\<lparr>store := (store s)\<lparr>comments := t\<rparr>\<rparr>))))"

definition save_album_metadata ::
  "env \<Rightarrow> string \<Rightarrow> jval \<Rightarrow> string \<Rightarrow> nat \<Rightarrow> updater \<Rightarrow> unit outcome \<times> updater" where
  "save_album_metadata env aid ttl descr n s =
     (case sql_bind ttl of
        Raised e \<Rightarrow> (Raised e, s)
      | Returned t \<Rightarrow>
          (Returned (),
           emit (CommitAlbum aid)
             (s\<lparr>store := (store s)\<lparr>albums :=
                  insert_or_replace aid
                    \<lparr>album_title = text_affinity t,
                     album_description = descr, photo_count = n,
                     created_date = clock env, updated_date = clock env\<rparr>
                    (albums (store s))\<rparr>\<rparr>)))"

subsection \<open>Paginated fetches\<close>

text \<open>
  The three fetch loops read nothing of the updater but the user id and write nothing
  but messages, so each is a function of the remote service alone: it returns what the
  Python returns (or raises) and the events of the loop, in order. A server that
  promises one more page for ever keeps the loop running: the value is then \<open>None\<close>.
\<close>

text \<open>\<^verbatim>\<open>get_user_albums\<close>: a page that is not \<^verbatim>\<open>ok\<close> raises, and the exception
  carries the message only. The loop ends when the server's page count is reached.\<close>

partial_function (option) user_albums_from ::
  "env \<Rightarrow> nat \<Rightarrow> album list \<Rightarrow> event list \<Rightarrow> (album list outcome \<times> event list) option" where
  "user_albums_from env page acc evs =
     (case photosets_getList env page of
        PageRaise e \<Rightarrow> Some (Raised e, evs @ [ApiAlbumsPage page])
      | PageFail m \<Rightarrow> Some (Raised (ApiError m), evs @ [ApiAlbumsPage page])
      | PageOk page_albums pages \<Rightarrow>
          (case pages of
             NoPages e \<Rightarrow> Some (Raised e, evs @ [ApiAlbumsPage page])
           | Pages n \<Rightarrow>
               if int page \<ge> n then Some (Returned (acc @ page_albums), evs @ [ApiAlbumsPage page])
               else user_albums_from env (page + 1) (acc @ page_albums)
                      (evs @ [ApiAlbumsPage page])))"

declare user_albums_from.simps [code]

definition get_user_albums :: "env \<Rightarrow> (album list outcome \<times> event list) option" where
  "get_user_albums env = user_albums_from env 1 [] []"

text \<open>\<^verbatim>\<open>get_album_photos\<close>: a page that is not \<^verbatim>\<open>ok\<close> ends the loop with
  \<^verbatim>\<open>break\<close>, and what was gathered is returned as the album's photos.\<close>

partial_function (option) album_photos_from ::
  "env \<Rightarrow> string \<Rightarrow> nat \<Rightarrow> photo list \<Rightarrow> event list \<Rightarrow> (photo list outcome \<times> event list) option" where
  "album_photos_from env aid page acc evs =
     (case photosets_getPhotos env aid page of
        PageRaise e \<Rightarrow> Some (Raised e, evs @ [ApiAlbumPhotosPage aid page])
      | PageFail m \<Rightarrow> Some (Returned acc, evs @ [ApiAlbumPhotosPage aid page])
      | PageOk page_photos pages \<Rightarrow>
          (case pages of
             NoPages e \<Rightarrow> Some (Raised e, evs @ [ApiAlbumPhotosPage aid page])
           | Pages n \<Rightarrow>
               if int page \<ge> n
               then Some (Returned (acc @ page_photos), evs @ [ApiAlbumPhotosPage aid page])
               else album_photos_from env aid (page + 1) (acc @ page_photos)
                      (evs @ [ApiAlbumPhotosPage aid page])))"

declare album_photos_from.simps [code]

definition get_album_photos :: "env \<Rightarrow> string \<Rightarrow> (photo list outcome \<times> event list) option" where
  "get_album_photos env aid = album_photos_from env aid 1 [] []"

text \<open>The loop of \<^verbatim>\<open>get_recent_photostream_photos\<close>: every exception and every
  page that is not \<^verbatim>\<open>ok\<close> is printed and ends the loop; an empty page ends it too.\<close>

partial_function (option) photostream_from ::
  "env \<Rightarrow> nat \<Rightarrow> photo list \<Rightarrow> event list \<Rightarrow> (photo list \<times> event list) option" where
  "photostream_from env page all_photos evs =
     (case people_getPhotos env page of
        PageRaise e \<Rightarrow>
          Some (all_photos, evs @ [ApiPhotostreamPage page, Log (MsgPhotostreamPageError page)])
      | PageFail m \<Rightarrow>
          Some (all_photos, evs @ [ApiPhotostreamPage page, Log (MsgPhotostreamError m)])
      | PageOk page_photos pages \<Rightarrow>
          if page_photos = [] then Some (all_photos, evs @ [ApiPhotostreamPage page])
          else (case pages of
                  NoPages e \<Rightarrow>
                    Some (all_photos @ page_photos,
                          evs @ [ApiPhotostreamPage page, Log (MsgPhotostreamPageError page)])
                | Pages n \<Rightarrow>
                    if int page \<ge> n
                    then Some (all_photos @ page_photos, evs @ [ApiPhotostreamPage page])
                    else photostream_from env (page + 1) (all_photos @ page_photos)
                           (evs @ [ApiPhotostreamPage page])))"

declare photostream_from.simps [code]

text \<open>\<^verbatim>\<open>get_recent_photostream_photos(days_back)\<close>: the first message, the loop from
  page 1, then the filter against the index.\<close>

definition get_recent_photostream_photos ::
  "env \<Rightarrow> int \<Rightarrow> updater \<Rightarrow> (photo list \<times> updater) option" where
  "get_recent_photostream_photos env days_back s =
     (case photostream_from env 1 [] [] of
        None \<Rightarrow> None
      | Some (all_photos, evs) \<Rightarrow>
          Some (filter (\<lambda>p. \<not> photo_exists s (ph_id p)) all_photos,
                emits (Log (MsgCheckingPhotostream days_back) # evs) s))"

subsection \<open>One remote photo\<close>

definition get_photo_info :: "env \<Rightarrow> string \<Rightarrow> updater \<Rightarrow> pdict option outcome \<times> updater" where
  "get_photo_info env pid s = (photos_getInfo env pid, emit (ApiGetInfo pid) s)"

definition get_photo_comments :: "env \<Rightarrow> string \<Rightarrow> updater \<Rightarrow> pdict list \<times> updater" where
  "get_photo_comments env pid s = (comments_getList env pid, emit (ApiGetComments pid) s)"

text \<open>\<^verbatim>\<open>download_thumbnail\<close> catches every exception of its own and returns
  \<^verbatim>\<open>None\<close>; on success the path is relative to the output directory.\<close>

definition download_thumbnail :: "env \<Rightarrow> string \<Rightarrow> jval \<Rightarrow> updater \<Rightarrow> string option \<times> updater" where
  "download_thumbnail env pid url s =
     (if \<not> truthy url then (None, s)
      else (map_option (\<lambda>ext. ''thumbnails/'' @ pid @ ext) (http_thumbnail env url),
            emit (ThumbnailDownload pid) s))"

text \<open>\<^verbatim>\<open>if photo_info: photo.update(photo_info)\<close>: the entries of the detail come
  first, so a lookup sees them before the listing's. An \<^verbatim>\<open>id\<close> in the detail
  replaces the photo's: the saves, which read \<^verbatim>\<open>str(photo_data['id'])\<close>, then use
  it, while the requests and the index keep the id read before the merge.\<close>

definition update_photo :: "(jval \<Rightarrow> string) \<Rightarrow> photo \<Rightarrow> pdict option \<Rightarrow> photo" where
  "update_photo repr p info =
     (case info of
        None \<Rightarrow> p
      | Some i \<Rightarrow>
          \<lparr>ph_id = (case map_of i ''id'' of None \<Rightarrow> ph_id p | Some v \<Rightarrow> py_str repr v),
           ph_fields = i @ ph_fields p\<rparr>)"

text \<open>The thumbnail step both download paths share: only a truthy \<^verbatim>\<open>url_t\<close> is
  requested, under the id read before the merge.\<close>

definition thumbnail_of :: "env \<Rightarrow> string \<Rightarrow> photo \<Rightarrow> updater \<Rightarrow> string option \<times> updater" where
  "thumbnail_of env pid p s =
     (case map_of (ph_fields p) ''url_t'' of
        None \<Rightarrow> (None, s)
      | Some u \<Rightarrow> if truthy u then download_thumbnail env pid u s else (None, s))"

definition download_photostream_photo :: "env \<Rightarrow> photo \<Rightarrow> updater \<Rightarrow> bool outcome \<times> updater" where
  "download_photostream_photo env p s =
     (if photo_exists s (ph_id p) then (Returned False, s)
      else
        obind (get_photo_info env (ph_id p) s) (\<lambda>info s1.
          let p1 = update_photo (py_repr env) p info;
              (thumb, s2) = thumbnail_of env (ph_id p) p1 s1;
              (cs, s3) = get_photo_comments env (ph_id p) s2
          in obind (save_comments (ph_id p) cs s3) (\<lambda>_ s4.
             obind (save_photo_metadata_standalone env p1 thumb s4) (\<lambda>_ s5.
               (Returned True,
                (emit (IndexAdd (ph_id p)) s5)
                  \<lparr>existing_photo_ids := insert (ph_id p) (existing_photo_ids s5),
                   photostream_new_count := photostream_new_count s5 + 1,
                   new_photos_count := new_photos_count s5 + 1\<rparr>)))))"

text \<open>The end of \<^verbatim>\<open>download_album_photo\<close>, common to the new photo and the
  existing one: save with the album association, then count the association.\<close>

definition save_and_count ::
  "env \<Rightarrow> photo \<Rightarrow> string \<Rightarrow> string option \<Rightarrow> bool \<Rightarrow> updater \<Rightarrow> bool outcome \<times> updater" where
  "save_and_count env p aid thumb in_album s =
     obind (save_photo_metadata_junction env p aid thumb s) (\<lambda>_ s1.
       (Returned True,
        if \<not> in_album then s1\<lparr>new_associations_count := new_associations_count s1 + 1\<rparr>
        else s1))"

definition download_album_photo ::
  "env \<Rightarrow> photo \<Rightarrow> string \<Rightarrow> updater \<Rightarrow> bool outcome \<times> updater" where
  "download_album_photo env p aid s =
     (let exists = photo_exists s (ph_id p);
          in_album = (if exists then photo_in_album s (ph_id p) aid else False)
      in if exists \<and> in_album
         then (Returned False, s\<lparr>skipped_photos_count := skipped_photos_count s + 1\<rparr>)
         else if \<not> exists then
           obind (get_photo_info env (ph_id p) s) (\<lambda>info s1.
             let p1 = update_photo (py_repr env) p info;
                 (thumb, s2) = thumbnail_of env (ph_id p) p1 s1;
                 (cs, s3) = get_photo_comments env (ph_id p) s2
             in obind (save_comments (ph_id p) cs s3) (\<lambda>_ s4.
                  save_and_count env p1 aid thumb in_album
                    ((emit (IndexAdd (ph_id p)) s4)
                       \<lparr>existing_photo_ids := insert (ph_id p) (existing_photo_ids s4),
                        new_photos_count := new_photos_count s4 + 1\<rparr>)))
         else save_and_count env p aid None in_album s)"

subsection \<open>Sweeps\<close>

text \<open>The loop of \<^verbatim>\<open>update_photostream\<close>: each photo in its own
  \<^verbatim>\<open>try\<close>; an exception is printed and the loop goes on.\<close>

fun photostream_items :: "env \<Rightarrow> photo list \<Rightarrow> updater \<Rightarrow> updater" where
  "photostream_items env [] s = s"
| "photostream_items env (p # ps) s =
     (case download_photostream_photo env p s of
        (Raised e, s1) \<Rightarrow> photostream_items env ps (emit (Log (MsgPhotoError (ph_id p))) s1)
      | (Returned b, s1) \<Rightarrow> photostream_items env ps s1)"

definition update_photostream :: "env \<Rightarrow> updater \<Rightarrow> updater option" where
  "update_photostream env s =
     (case get_recent_photostream_photos env 90 s of
        None \<Rightarrow> None
      | Some (new_photos, s1) \<Rightarrow> Some (photostream_items env new_photos s1))"

text \<open>The loop of \<^verbatim>\<open>update_album_incremental\<close>: no \<^verbatim>\<open>try\<close> around the
  photo, so an exception leaves the loop and the function.\<close>

fun album_items :: "env \<Rightarrow> string \<Rightarrow> photo list \<Rightarrow> updater \<Rightarrow> unit outcome \<times> updater" where
  "album_items env aid [] s = (Returned (), s)"
| "album_items env aid (p # ps) s =
     obind (download_album_photo env p aid s) (\<lambda>_ s1. album_items env aid ps s1)"

definition update_album_incremental ::
  "env \<Rightarrow> string \<Rightarrow> jval \<Rightarrow> updater \<Rightarrow> (unit outcome \<times> updater) option" where
  "update_album_incremental env aid ttl s =
     (case get_album_photos env aid of
        None \<Rightarrow> None
      | Some (r, evs) \<Rightarrow>
          Some (obind (r, emits evs s) (\<lambda>album_photos s1.
                  obind (save_album_metadata env aid ttl [] (length album_photos) s1)
                    (\<lambda>_ s2. album_items env aid album_photos s2))))"

text \<open>\<^verbatim>\<open>album['title']['_content'] if isinstance(album['title'], dict) else
  str(album['title'])\<close>, computed outside the \<^verbatim>\<open>try\<close> of the album loop.\<close>

definition album_title_of :: "env \<Rightarrow> album \<Rightarrow> jval outcome" where
  "album_title_of env a =
     (case al_title a of
        JDict c \<Rightarrow> required c ''_content''
      | v \<Rightarrow> Returned (JStr (py_str (py_repr env) v)))"

fun albums_loop :: "env \<Rightarrow> album list \<Rightarrow> updater \<Rightarrow> (unit outcome \<times> updater) option" where
  "albums_loop env [] s = Some (Returned (), s)"
| "albums_loop env (a # as) s =
     (case album_title_of env a of
        Raised e \<Rightarrow> Some (Raised e, s)
      | Returned ttl \<Rightarrow>
          (case update_album_incremental env (al_id a) ttl s of
             None \<Rightarrow> None
           | Some (Raised e, s1) \<Rightarrow> albums_loop env as (emit (Log (MsgAlbumError (al_id a))) s1)
           | Some (Returned u, s1) \<Rightarrow> albums_loop env as s1))"

definition update_albums :: "env \<Rightarrow> updater \<Rightarrow> (unit outcome \<times> updater) option" where
  "update_albums env s =
     (case get_user_albums env of
        None \<Rightarrow> None
      | Some (Raised e, evs) \<Rightarrow> Some (Returned (), emit (Log MsgAlbumsError) (emits evs s))
      | Some (Returned als, evs) \<Rightarrow> albums_loop env als (emits evs s))"

subsection \<open>The orchestrator\<close>

definition comprehensive_update :: "env \<Rightarrow> updater \<Rightarrow> (unit outcome \<times> updater) option" where
  "comprehensive_update env s =
     (case update_photostream env s of
        None \<Rightarrow> None
      | Some s1 \<Rightarrow> update_albums env s1)"

text \<open>One run of the program on a database: a new updater, then the update. The
  database it leaves is the next run's.\<close>

definition sync_run :: "env \<Rightarrow> db \<Rightarrow> db option" where
  "sync_run env d =
     (case comprehensive_update env (init_updater d) of
        None \<Rightarrow> None
      | Some (r, s) \<Rightarrow> Some (store s))"

fun sync_runs :: "env list \<Rightarrow> db \<Rightarrow> db option" where
  "sync_runs [] d = Some d"
| "sync_runs (e # es) d = (case sync_run e d of None \<Rightarrow> None | Some d' \<Rightarrow> sync_runs es d')"

section \<open>The request signer\<close>

text \<open>
  \<^verbatim>\<open>urllib.parse.quote(s, safe='')\<close> on the bytes of a string: letters, digits and
  \<^verbatim>\<open>_.-~\<close> stay, every other byte becomes \<^verbatim>\<open>%XX\<close>. \<^verbatim>\<open>str.upper\<close> is
  modelled on ASCII letters. HMAC-SHA1 and base64 are the standard library's and are
  parameters.
\<close>

definition unreserved :: "char \<Rightarrow> bool" where
  "unreserved c =
     (c \<in> set ''ABCDEFGHIJKLMNOPQRSTUVWXYZabcdefghijklmnopqrstuvwxyz0123456789_.-~'')"

definition hex_digit :: "nat \<Rightarrow> char" where
  "hex_digit n = ''0123456789ABCDEF'' ! n"

definition quote :: "string \<Rightarrow> string" where
  "quote s =
     concat (map (\<lambda>c. if unreserved c then [c]
                       else [CHR ''%'', hex_digit (of_char c div 16), hex_digit (of_char c mod 16)]) s)"

definition upper_char :: "char \<Rightarrow> char" where
  "upper_char c =
     (case map_of (zip ''abcdefghijklmnopqrstuvwxyz'' ''ABCDEFGHIJKLMNOPQRSTUVWXYZ'') c of
        None \<Rightarrow> c
      | Some u \<Rightarrow> u)"

definition upper :: "string \<Rightarrow> string" where
  "upper s = map upper_char s"

text \<open>A request parameter is a string or an int (\<^verbatim>\<open>page\<close>, \<^verbatim>\<open>per_page\<close>,
  \<^verbatim>\<open>nojsoncallback\<close>); the f-string writes either with \<^verbatim>\<open>str\<close>.\<close>

datatype pval = PStr string | PInt int

fun pval_str :: "pval \<Rightarrow> string" where
  "pval_str (PStr x) = x"
| "pval_str (PInt i) = int_str i"

record crypto =
  hmac_sha1 :: "string \<Rightarrow> string \<Rightarrow> string"
  b64encode :: "string \<Rightarrow> string"

definition key_value :: "string \<times> pval \<Rightarrow> string" where
  "key_value kv = fst kv @ ''='' @ pval_str (snd kv)"

text \<open>
  \<^verbatim>\<open>generate_signature(method, url, params)\<close>. \<open>params\<close> lists the items of the
  dict, whose keys are unique, so \<^verbatim>\<open>sorted(params.items())\<close> is decided by the keys.
\<close>

definition generate_signature ::
  "crypto \<Rightarrow> string \<Rightarrow> string option \<Rightarrow> string \<Rightarrow> string \<Rightarrow> (string \<times> pval) list \<Rightarrow> string" where
  "generate_signature lib api_secret oauth_token_secret method url params =
     (let normalized_params = join ''&'' (map key_value (sort_key fst params));
          signature_base = upper method @ ''&'' @ quote url @ ''&'' @ quote normalized_params;
          signing_key =
            quote api_secret @ ''&'' @
            quote (case oauth_token_secret of None \<Rightarrow> [] | Some t \<Rightarrow> t)
      in b64encode lib (hmac_sha1 lib signing_key signature_base))"

text \<open>The signature as section 4.1 of the specification words it, for a list of the
  parameters that is already in the order of their keys.\<close>

definition spec_signature ::
  "crypto \<Rightarrow> string \<Rightarrow> string option \<Rightarrow> string \<Rightarrow> string \<Rightarrow> (string \<times> pval) list \<Rightarrow> string" where
  "spec_signature lib app_secret token_secret method url sorted_params =
     b64encode lib
       (hmac_sha1 lib
          (quote app_secret @ ''&'' @ quote (case token_secret of None \<Rightarrow> [] | Some t \<Rightarrow> t))
          (upper method @ ''&'' @ quote url @ ''&'' @
           quote (join ''&'' (map key_value sorted_params))))"

section \<open>Vocabulary of the properties\<close>

subsection \<open>Classification (section 4.4)\<close>

datatype sweep = PhotostreamSweep | AlbumSweep string

definition process_item :: "env \<Rightarrow> sweep \<Rightarrow> photo \<Rightarrow> updater \<Rightarrow> bool outcome \<times> updater" where
  "process_item env sw p s =
     (case sw of
        PhotostreamSweep \<Rightarrow> download_photostream_photo env p s
      | AlbumSweep aid \<Rightarrow> download_album_photo env p aid s)"

definition linked :: "sweep \<Rightarrow> updater \<Rightarrow> photo \<Rightarrow> bool" where
  "linked sw s p =
     (case sw of PhotostreamSweep \<Rightarrow> False | AlbumSweep aid \<Rightarrow> photo_in_album s (ph_id p) aid)"

text \<open>The counters, in the order new photos, new associations, skipped photos,
  new photostream photos.\<close>

definition counters :: "updater \<Rightarrow> nat \<times> nat \<times> nat \<times> nat" where
  "counters s =
     (new_photos_count s, new_associations_count s, skipped_photos_count s,
      photostream_new_count s)"

fun plus4 :: "nat \<times> nat \<times> nat \<times> nat \<Rightarrow> nat \<times> nat \<times> nat \<times> nat \<Rightarrow> nat \<times> nat \<times> nat \<times> nat" where
  "plus4 (a, b, c, d) (a', b', c', d') = (a + a', b + b', c + c', d + d')"

text \<open>The column "Counters incremented" of the table of section 4.4, as written.\<close>

definition table_counters :: "sweep \<Rightarrow> bool \<Rightarrow> bool \<Rightarrow> nat \<times> nat \<times> nat \<times> nat" where
  "table_counters sw ex ln =
     (case sw of
        PhotostreamSweep \<Rightarrow> if ex then (0, 0, 0, 0) else (1, 0, 0, 1)
      | AlbumSweep aid \<Rightarrow>
          if \<not> ex then (1, 0, 0, 0) else if \<not> ln then (0, 1, 0, 0) else (0, 0, 1, 0))"

text \<open>The same column as the code counts: a new photo of an album sweep is a new
  association too.\<close>

definition counted :: "sweep \<Rightarrow> bool \<Rightarrow> bool \<Rightarrow> nat \<times> nat \<times> nat \<times> nat" where
  "counted sw ex ln =
     (case sw of
        PhotostreamSweep \<Rightarrow> if ex then (0, 0, 0, 0) else (1, 0, 0, 1)
      | AlbumSweep aid \<Rightarrow>
          if \<not> ex then (1, 1, 0, 0) else if \<not> ln then (0, 1, 0, 0) else (0, 0, 1, 0))"

datatype action = FetchDetail | DownloadThumbnail | FetchComments | PersistPhoto | PersistLink

fun action_of :: "event \<Rightarrow> action list" where
  "action_of (ApiGetInfo p) = [FetchDetail]"
| "action_of (ThumbnailDownload p) = [DownloadThumbnail]"
| "action_of (ApiGetComments p) = [FetchComments]"
| "action_of (CommitPhoto p) = [PersistPhoto]"
| "action_of (CommitLink p a) = [PersistLink]"
| "action_of e = []"

text \<open>The actions taken between two states of one updater.\<close>

definition actions_between :: "updater \<Rightarrow> updater \<Rightarrow> action list" where
  "actions_between s s' = concat (map action_of (drop (length (trace s)) (trace s')))"

subsection \<open>Paginated fetches (section 4.2)\<close>

text \<open>Pages 1 to \<open>k\<close> all answer \<^verbatim>\<open>ok\<close> and promise a later page; the items they
  hold, in order.\<close>

fun continues_upto :: "(nat \<Rightarrow> 'a page_response) \<Rightarrow> nat \<Rightarrow> bool" where
  "continues_upto resp 0 = True"
| "continues_upto resp (Suc k) =
     (continues_upto resp k \<and>
      (case resp (Suc k) of
         PageOk xs (Pages n) \<Rightarrow> int (Suc k) < n
       | _ \<Rightarrow> False))"

fun items_upto :: "(nat \<Rightarrow> 'a page_response) \<Rightarrow> nat \<Rightarrow> 'a list" where
  "items_upto resp 0 = []"
| "items_upto resp (Suc k) =
     items_upto resp k @ (case resp (Suc k) of PageOk xs n \<Rightarrow> xs | _ \<Rightarrow> [])"

fun nonempty_upto :: "(nat \<Rightarrow> 'a page_response) \<Rightarrow> nat \<Rightarrow> bool" where
  "nonempty_upto resp 0 = True"
| "nonempty_upto resp (Suc k) =
     (nonempty_upto resp k \<and> (case resp (Suc k) of PageOk xs n \<Rightarrow> xs \<noteq> [] | _ \<Rightarrow> False))"

text \<open>What a caller of a fetch can see of its result: the exception, if one reaches it,
  and the items, if any are returned. The sentence of section 4.2 asks for both.\<close>

definition surfaced_error :: "'a outcome \<Rightarrow> error option" where
  "surfaced_error r = (case r of Raised e \<Rightarrow> Some e | Returned x \<Rightarrow> None)"

definition surfaced_items :: "'a list outcome \<Rightarrow> 'a list" where
  "surfaced_items r = (case r of Raised e \<Rightarrow> [] | Returned xs \<Rightarrow> xs)"

definition surfaces_error_with_partial :: "'a list outcome \<Rightarrow> 'a list \<Rightarrow> bool" where
  "surfaces_error_with_partial r partial = (surfaced_error r \<noteq> None \<and> surfaced_items r = partial)"

subsection \<open>Storage invariants\<close>

text \<open>Replaying the commits of a trace from a set of stored photo ids: a link may be
  committed only for a photo whose row was committed before.\<close>

fun commits_in_order :: "string set \<Rightarrow> event list \<Rightarrow> bool" where
  "commits_in_order S [] = True"
| "commits_in_order S (CommitPhoto p # t) = commits_in_order (insert p S) t"
| "commits_in_order S (CommitLink p a # t) = (p \<in> S \<and> commits_in_order S t)"
| "commits_in_order S (e # t) = commits_in_order S t"

fun photo_commits :: "event list \<Rightarrow> string set" where
  "photo_commits [] = {}"
| "photo_commits (CommitPhoto p # t) = insert p (photo_commits t)"
| "photo_commits (e # t) = photo_commits t"

fun storage_event :: "event \<Rightarrow> bool" where
  "storage_event (CommitPhoto p) = True"
| "storage_event (CommitLink p a) = True"
| "storage_event e = False"

definition photo_ids :: "db \<Rightarrow> string set" where
  "photo_ids d = set (map fst (photos d))"

definition links_reference_photos :: "db \<Rightarrow> bool" where
  "links_reference_photos d = list_all (\<lambda>l. link_photo_id l \<in> photo_ids d) (photo_albums d)"

definition no_duplicate_links :: "db \<Rightarrow> bool" where
  "no_duplicate_links d = distinct (map link_key (photo_albums d))"

definition link_keys :: "db \<Rightarrow> (string \<times> string) set" where
  "link_keys d = set (map link_key (photo_albums d))"

text \<open>
  What a stretch of a run may do to an updater: it appends to the trace, every link it
  commits follows a commit of the photo's row in the same stretch, the stored photo ids
  grow by exactly the photos it commits, no link is removed, and the two table
  invariants are kept.
\<close>

definition extends :: "updater \<Rightarrow> updater \<Rightarrow> bool" where
  "extends s s' =
     (\<exists>t. trace s' = trace s @ t \<and> commits_in_order {} t \<and>
          photo_ids (store s') = photo_ids (store s) \<union> photo_commits t \<and>
          link_keys (store s) \<subseteq> link_keys (store s') \<and>
          (links_reference_photos (store s) \<longrightarrow> links_reference_photos (store s')) \<and>
          (no_duplicate_links (store s) \<longrightarrow> no_duplicate_links (store s')))"

subsection \<open>Runs without errors\<close>

text \<open>
  The messages that report a failed item or a failed album; a run is free of errors
  when its trace holds none. The index is in step with storage when it holds exactly
  the stored photo ids. An album is settled in a store when its title can be read and
  bound, its listing can be fetched, and every photo of the listing is stored and
  linked to it. Two updater states have the same core when index, photo rows, link rows
  and the two counters of new things agree; a state covers a store when its index and
  links hold all of the store's.
\<close>

fun error_message :: "event \<Rightarrow> bool" where
  "error_message (Log (MsgPhotoError p)) = True"
| "error_message (Log (MsgAlbumError a)) = True"
| "error_message e = False"

definition error_free :: "updater \<Rightarrow> bool" where
  "error_free s = list_all (\<lambda>e. \<not> error_message e) (trace s)"

definition synced :: "updater \<Rightarrow> bool" where
  "synced s = (existing_photo_ids s = photo_ids (store s))"

definition album_settled :: "env \<Rightarrow> db \<Rightarrow> album \<Rightarrow> bool" where
  "album_settled env d a =
     (case album_title_of env a of
        Raised e \<Rightarrow> False
      | Returned ttl \<Rightarrow>
          (case sql_bind ttl of
             Raised e \<Rightarrow> False
           | Returned t \<Rightarrow>
               (case get_album_photos env (al_id a) of
                  None \<Rightarrow> False
                | Some (Raised e, evs) \<Rightarrow> False
                | Some (Returned ps, evs) \<Rightarrow>
                    list_all (\<lambda>p. ph_id p \<in> photo_ids d \<and> (ph_id p, al_id a) \<in> link_keys d) ps)))"

definition same_core :: "updater \<Rightarrow> updater \<Rightarrow> bool" where
  "same_core s s' =
     (existing_photo_ids s' = existing_photo_ids s \<and>
      photos (store s') = photos (store s) \<and>
      photo_albums (store s') = photo_albums (store s) \<and>
      new_photos_count s' = new_photos_count s \<and>
      new_associations_count s' = new_associations_count s)"

definition covers :: "updater \<Rightarrow> db \<Rightarrow> bool" where
  "covers s d = (photo_ids d \<subseteq> existing_photo_ids s \<and> link_keys d \<subseteq> link_keys (store s))"

text \<open>The remote answers a detail request with the photo asked for: the detail of a
  photo carries no \<^verbatim>\<open>id\<close>, or one that reads as the id of the request.\<close>

definition detail_keeps_id :: "env \<Rightarrow> bool" where
  "detail_keeps_id env =
     (\<forall>pid i v. photos_getInfo env pid = Returned (Some i) \<longrightarrow> map_of i ''id'' = Some v \<longrightarrow>
        py_str (py_repr env) v = pid)"

section \<open>Example remotes and stores\<close>

text \<open>A remote with an empty photostream and no albums, where no detail, comment or
  thumbnail is available.\<close>

definition quiet_env :: env where
  "quiet_env =
     \<lparr>people_getPhotos = (\<lambda>page. PageOk [] (Pages 1)),
      photosets_getList = (\<lambda>page. PageOk [] (Pages 1)),
      photosets_getPhotos = (\<lambda>aid page. PageOk [] (Pages 1)),
      photos_getInfo = (\<lambda>pid. Returned None),
      comments_getList = (\<lambda>pid. []),
      http_thumbnail = (\<lambda>url. None),
      clock = ''2024-05-01T10:00:00'',
      py_repr = (\<lambda>v. [])\<rparr>"

definition photo_p1 :: photo where
  "photo_p1 =
     \<lparr>ph_id = ''p1'',
      ph_fields = [(''title'', JStr ''Sunset''), (''views'', JStr ''12''),
                   (''url_t'', JStr ''https://img.example/p1_t.jpg'')]\<rparr>"

definition photo_p2 :: photo where
  "photo_p2 = \<lparr>ph_id = ''p2'', ph_fields = [(''title'', JStr ''Harbour''), (''views'', JStr ''3'')]\<rparr>"

text \<open>A listing item whose view count is not a number.\<close>

definition photo_odd :: photo where
  "photo_odd = \<lparr>ph_id = ''p9'', ph_fields = [(''title'', JStr ''Odd''), (''views'', JStr ''n/a'')]\<rparr>"

definition album_trip :: album where
  "album_trip = \<lparr>al_id = ''A'', al_title = JDict [(''_content'', JStr ''Trip'')]\<rparr>"

definition album_walk :: album where
  "album_walk = \<lparr>al_id = ''B'', al_title = JDict [(''_content'', JStr ''Walk'')]\<rparr>"

text \<open>One album, Trip, that holds p1 and p2; thumbnails download.\<close>

definition trip_env :: env where
  "trip_env =
     quiet_env
       \<lparr>photosets_getList := (\<lambda>page. PageOk [album_trip] (Pages 1)),
        photosets_getPhotos := (\<lambda>aid page. PageOk [photo_p1, photo_p2] (Pages 1)),
        http_thumbnail := (\<lambda>url. Some ''.jpg'')\<rparr>"

text \<open>One album, Trip, that holds the photo with the odd view count.\<close>

definition odd_env :: env where
  "odd_env =
     quiet_env
       \<lparr>photosets_getList := (\<lambda>page. PageOk [album_trip] (Pages 1)),
        photosets_getPhotos := (\<lambda>aid page. PageOk [photo_odd] (Pages 1))\<rparr>"

text \<open>The photostream and two albums all list p1 and p2; the detail request for p1
  fails in transport.\<close>

definition down_env :: env where
  "down_env =
     quiet_env
       \<lparr>people_getPhotos := (\<lambda>page. PageOk [photo_p1, photo_p2] (Pages 1)),
        photosets_getList := (\<lambda>page. PageOk [album_trip, album_walk] (Pages 1)),
        photosets_getPhotos := (\<lambda>aid page. PageOk [photo_p1, photo_p2] (Pages 1)),
        photos_getInfo := (\<lambda>pid. if pid = ''p1'' then Raised TransportError else Returned None)\<rparr>"

text \<open>Every collection has two pages; the first answers, the second is refused.\<close>

definition refused_env :: env where
  "refused_env =
     quiet_env
       \<lparr>people_getPhotos :=
          (\<lambda>page. if page = 1 then PageOk [photo_p1] (Pages 2) else PageFail ''Service unavailable''),
        photosets_getList :=
          (\<lambda>page. if page = 1 then PageOk [album_trip] (Pages 2) else PageFail ''Service unavailable''),
        photosets_getPhotos :=
          (\<lambda>aid page. if page = 1 then PageOk [photo_p1] (Pages 2) else PageFail ''Service unavailable'')\<rparr>"

text \<open>A photostream of two pages, p1 on the first and p2 on the second.\<close>

definition paged_env :: env where
  "paged_env =
     quiet_env
       \<lparr>people_getPhotos :=
          (\<lambda>page. if page = 1 then PageOk [photo_p1] (Pages 2)
                   else if page = 2 then PageOk [photo_p2] (Pages 2)
                   else PageOk [] (Pages 2))\<rparr>"

text \<open>A store that holds p1 with its thumbnail and no link.\<close>

definition stored_p1 :: photo_row where
  "stored_p1 =
     \<lparr>album_id = SqlNull, title = SqlText ''Sunset'', description = SqlText [],
      filename = ''p1.jpg'', thumbnail_path = ''thumbnails/p1.jpg'', date_taken = [],
      date_uploaded = [], views = 12, tags = SqlText [], url_original = [],
      url_thumbnail = ''https://img.example/p1_t.jpg''\<rparr>"

definition db_p1 :: db where
  "db_p1 = empty_db\<lparr>photos := [(''p1'', stored_p1)]\<rparr>"

text \<open>A signing request: stand-ins for the two library functions that keep their
  arguments visible, and the parameters of a login test call, as a dict lists them and
  in the order of their keys.\<close>

definition toy_crypto :: crypto where
  "toy_crypto = \<lparr>hmac_sha1 = (\<lambda>k m. k @ ''|'' @ m), b64encode = (\<lambda>x. x)\<rparr>"

definition login_params :: "(string \<times> pval) list" where
  "login_params =
     [(''oauth_nonce'', PStr ''1714557600''), (''method'', PStr ''flickr.test.login''),
      (''nojsoncallback'', PInt 1), (''format'', PStr ''json'')]"

definition login_sorted :: "(string \<times> pval) list" where
  "login_sorted =
     [(''format'', PStr ''json''), (''method'', PStr ''flickr.test.login''),
      (''nojsoncallback'', PInt 1), (''oauth_nonce'', PStr ''1714557600'')]"

section \<open>Every run extends the store in order\<close>

lemma photo_commits_append: "photo_commits (t @ u) = photo_commits t \<union> photo_commits u"
  by (induction t rule: photo_commits.induct) auto

lemma commits_in_order_mono:
  "commits_in_order S t \<Longrightarrow> S \<subseteq> S' \<Longrightarrow> commits_in_order S' t"
proof (induction S t arbitrary: S' rule: commits_in_order.induct)
  case (2 S p t)
  from "2.prems" have "insert p S \<subseteq> insert p S'" by auto
  with "2.IH" "2.prems"(1) show ?case by simp
next
  case (3 S p a t)
  then show ?case by auto
qed simp_all

lemma commits_in_order_append:
  "commits_in_order S (t @ u) =
     (commits_in_order S t \<and> commits_in_order (S \<union> photo_commits t) u)"
  by (induction S t rule: commits_in_order.induct) simp_all

lemma commits_in_order_quiet:
  "list_all (\<lambda>e. \<not> storage_event e) u \<Longrightarrow> commits_in_order S u"
  by (induction S u rule: commits_in_order.induct) simp_all

lemma photo_commits_quiet:
  "list_all (\<lambda>e. \<not> storage_event e) u \<Longrightarrow> photo_commits u = {}"
  by (induction u rule: photo_commits.induct) simp_all

lemma extends_refl: "extends s s"
  by (simp add: extends_def)

lemma extends_trans:
  assumes "extends a b" and "extends b c"
  shows "extends a c"
proof -
  from assms(1) obtain t where t: "trace b = trace a @ t" "commits_in_order {} t"
    "photo_ids (store b) = photo_ids (store a) \<union> photo_commits t"
    "links_reference_photos (store a) \<longrightarrow> links_reference_photos (store b)"
    "no_duplicate_links (store a) \<longrightarrow> no_duplicate_links (store b)"
    "link_keys (store a) \<subseteq> link_keys (store b)"
    by (auto simp: extends_def)
  from assms(2) obtain u where u: "trace c = trace b @ u" "commits_in_order {} u"
    "photo_ids (store c) = photo_ids (store b) \<union> photo_commits u"
    "links_reference_photos (store b) \<longrightarrow> links_reference_photos (store c)"
    "no_duplicate_links (store b) \<longrightarrow> no_duplicate_links (store c)"
    "link_keys (store b) \<subseteq> link_keys (store c)"
    by (auto simp: extends_def)
  have "commits_in_order ({} \<union> photo_commits t) u"
    using u(2) by (rule commits_in_order_mono) simp
  then have "commits_in_order {} (t @ u)"
    using t(2) by (simp add: commits_in_order_append)
  moreover have "trace c = trace a @ (t @ u)"
    using t(1) u(1) by simp
  moreover have "photo_ids (store c) = photo_ids (store a) \<union> photo_commits (t @ u)"
    using t(3) u(3) by (auto simp: photo_commits_append)
  moreover have "link_keys (store a) \<subseteq> link_keys (store c)"
    using t(6) u(6) by blast
  ultimately show ?thesis
    unfolding extends_def using t(4,5) u(4,5) by blast
qed

lemma extends_step:
  assumes "trace s' = trace s @ u" and "commits_in_order {} u"
    and "photo_ids (store s') = photo_ids (store s) \<union> photo_commits u"
    and "links_reference_photos (store s) \<Longrightarrow> links_reference_photos (store s')"
    and "no_duplicate_links (store s) \<Longrightarrow> no_duplicate_links (store s')"
    and "link_keys (store s) \<subseteq> link_keys (store s')"
    and "extends s0 s"
  shows "extends s0 s'"
proof -
  have "extends s s'"
    unfolding extends_def using assms(1-6) by blast
  with assms(7) show ?thesis by (rule extends_trans)
qed

lemma extends_emits:
  "extends s0 s \<Longrightarrow> list_all (\<lambda>e. \<not> storage_event e) evs \<Longrightarrow> extends s0 (emits evs s)"
  by (rule extends_step[where u = evs])
     (simp_all add: emits_def commits_in_order_quiet photo_commits_quiet)

lemma extends_emit:
  "extends s0 s \<Longrightarrow> \<not> storage_event e \<Longrightarrow> extends s0 (emit e s)"
  by (rule extends_step[where u = "[e]"])
     (simp_all add: emit_def commits_in_order_quiet photo_commits_quiet)

lemma extends_bookkeeping:
  "extends s0 s \<Longrightarrow> store s' = store s \<Longrightarrow> trace s' = trace s \<Longrightarrow> extends s0 s'"
  by (rule extends_step[where u = "[]"]) simp_all

lemma photo_ids_insert_or_replace:
  "photo_ids (d\<lparr>photos := insert_or_replace k v (photos d)\<rparr>) = insert k (photo_ids d)"
  by (auto simp: photo_ids_def insert_or_replace_def)

lemma links_reference_photos_grow:
  "links_reference_photos d \<Longrightarrow> photo_ids d \<subseteq> photo_ids d' \<Longrightarrow>
   photo_albums d' = photo_albums d \<Longrightarrow> links_reference_photos d'"
  by (auto simp: links_reference_photos_def list_all_iff)

lemma extends_save_photo_metadata_standalone:
  assumes "extends s0 s"
  shows "extends s0 (snd (save_photo_metadata_standalone env p th s))"
proof (cases "photo_row_of (py_repr env) p th")
  case (Raised e)
  then show ?thesis using assms by (simp add: save_photo_metadata_standalone_def)
next
  case (Returned r)
  let ?d = "(store s)\<lparr>photos := insert_or_replace (ph_id p) r (photos (store s))\<rparr>"
  have ids: "photo_ids ?d = insert (ph_id p) (photo_ids (store s))"
    by (rule photo_ids_insert_or_replace)
  show ?thesis
  proof (rule extends_step[where u = "[CommitPhoto (ph_id p)]" and s = s])
    show "links_reference_photos (store s) \<Longrightarrow>
      links_reference_photos (store (snd (save_photo_metadata_standalone env p th s)))"
      using ids
      by (auto simp: save_photo_metadata_standalone_def Returned emit_def
            intro: links_reference_photos_grow)
  qed (simp_all add: save_photo_metadata_standalone_def Returned emit_def ids
         no_duplicate_links_def link_keys_def assms)
qed


lemma insert_or_ignore_distinct:
  "distinct (map link_key t) \<Longrightarrow> distinct (map link_key (insert_or_ignore r t))"
  by (simp add: insert_or_ignore_def)

lemma insert_or_ignore_set:
  "set (insert_or_ignore r t) \<subseteq> insert r (set t)"
  by (auto simp: insert_or_ignore_def)

lemma extends_save_photo_metadata_junction:
  assumes "extends s0 s"
  shows "extends s0 (snd (save_photo_metadata_junction env p aid th s))"
proof (cases "photo_row_of (py_repr env) p th")
  case (Raised e)
  then show ?thesis using assms
    by (simp add: save_photo_metadata_junction_def save_photo_metadata_standalone_def obind_def)
next
  case (Returned r)
  let ?l = "\<lparr>link_photo_id = ph_id p, link_album_id = aid, is_primary = 1, date_added = clock env\<rparr>"
  let ?d = "(store s)\<lparr>photos := insert_or_replace (ph_id p) r (photos (store s)),
                       photo_albums := insert_or_ignore ?l (photo_albums (store s))\<rparr>"
  let ?s' = "snd (save_photo_metadata_junction env p aid th s)"
  have st: "store ?s' = ?d"
    and tr: "trace ?s' = trace s @ [CommitPhoto (ph_id p), CommitLink (ph_id p) aid]"
    by (simp_all add: save_photo_metadata_junction_def save_photo_metadata_standalone_def
          obind_def Returned emit_def)
  have ids: "photo_ids ?d = insert (ph_id p) (photo_ids (store s))"
    by (auto simp: photo_ids_def insert_or_replace_def)
  show ?thesis
  proof (rule extends_step[where u = "[CommitPhoto (ph_id p), CommitLink (ph_id p) aid]" and s = s])
    show "trace ?s' = trace s @ [CommitPhoto (ph_id p), CommitLink (ph_id p) aid]"
      by (rule tr)
    show "commits_in_order {} [CommitPhoto (ph_id p), CommitLink (ph_id p) aid]"
      by simp
    show "photo_ids (store ?s') =
          photo_ids (store s) \<union> photo_commits [CommitPhoto (ph_id p), CommitLink (ph_id p) aid]"
      by (simp add: st ids)
    show "links_reference_photos (store ?s')" if "links_reference_photos (store s)"
    proof -
      have "link_photo_id l \<in> photo_ids ?d" if "l \<in> set (photo_albums ?d)" for l
      proof -
        from that have "l = ?l \<or> l \<in> set (photo_albums (store s))"
          using insert_or_ignore_set[of ?l "photo_albums (store s)"] by auto
        then show ?thesis
          using \<open>links_reference_photos (store s)\<close> ids
          by (auto simp: links_reference_photos_def list_all_iff)
      qed
      then show ?thesis
        unfolding st by (simp add: links_reference_photos_def list_all_iff)
    qed
    show "no_duplicate_links (store ?s')" if "no_duplicate_links (store s)"
      using that by (simp add: st no_duplicate_links_def insert_or_ignore_distinct)
    show "link_keys (store s) \<subseteq> link_keys (store ?s')"
      by (auto simp: st link_keys_def insert_or_ignore_def)
    show "extends s0 s" by (rule assms)
  qed
qed

lemma extends_save_comments:
  assumes "extends s0 s"
  shows "extends s0 (snd (save_comments pid cs s))"
proof (cases "cs = [] \<or> (\<exists>e. insert_comments pid cs (comments (store s)) = Raised e)")
  case True
  then show ?thesis using assms by (auto simp: save_comments_def)
next
  case False
  then obtain t where t: "cs \<noteq> []" "insert_comments pid cs (comments (store s)) = Returned t"
    by (cases "insert_comments pid cs (comments (store s))") auto
  show ?thesis
    by (rule extends_step[where u = "[CommitComments pid]" and s = s])
       (simp_all add: save_comments_def t emit_def photo_ids_def links_reference_photos_def
          no_duplicate_links_def link_keys_def assms)
qed

lemma extends_save_album_metadata:
  assumes "extends s0 s"
  shows "extends s0 (snd (save_album_metadata env aid ttl descr n s))"
proof (cases "sql_bind ttl")
  case (Raised e)
  then show ?thesis using assms by (simp add: save_album_metadata_def)
next
  case (Returned t)
  show ?thesis
    by (rule extends_step[where u = "[CommitAlbum aid]" and s = s])
       (simp_all add: save_album_metadata_def Returned emit_def photo_ids_def
          links_reference_photos_def no_duplicate_links_def link_keys_def assms)
qed

lemma extends_obind:
  assumes "extends s0 (snd m)"
    and "\<And>a s1. extends s0 s1 \<Longrightarrow> extends s0 (snd (f a s1))"
  shows "extends s0 (snd (obind m f))"
  using assms by (cases m; cases "fst m") (auto simp: obind_def)

lemma extends_get_photo_info:
  "extends s0 s \<Longrightarrow> extends s0 (snd (get_photo_info env pid s))"
  by (simp add: get_photo_info_def extends_emit)

lemma extends_get_photo_comments:
  "extends s0 s \<Longrightarrow> extends s0 (snd (get_photo_comments env pid s))"
  by (simp add: get_photo_comments_def extends_emit)

lemma extends_thumbnail_of:
  "extends s0 s \<Longrightarrow> extends s0 (snd (thumbnail_of env pid p s))"
  by (simp add: thumbnail_of_def download_thumbnail_def extends_emit split: option.split)

lemma extends_fields:
  assumes "extends s0 s"
  shows "extends s0 (s\<lparr>existing_photo_ids := a\<rparr>)"
    and "extends s0 (s\<lparr>new_photos_count := n\<rparr>)"
    and "extends s0 (s\<lparr>new_associations_count := n\<rparr>)"
    and "extends s0 (s\<lparr>skipped_photos_count := n\<rparr>)"
    and "extends s0 (s\<lparr>photostream_new_count := n\<rparr>)"
  by (rule extends_bookkeeping[OF assms]; simp)+

lemma extends_index_add: "extends s0 s \<Longrightarrow> extends s0 (emit (IndexAdd pid) s)"
  by (rule extends_emit) simp_all

lemmas extends_rules =
  extends_obind extends_get_photo_info extends_get_photo_comments extends_thumbnail_of
  extends_save_comments extends_save_photo_metadata_standalone
  extends_save_photo_metadata_junction extends_fields extends_index_add

lemma extends_download_photostream_photo:
  assumes "extends s0 s"
  shows "extends s0 (snd (download_photostream_photo env p s))"
  by (cases "photo_exists s (ph_id p)";
      simp add: download_photostream_photo_def Let_def split_def assms;
      (rule extends_rules assms | assumption | simp only: snd_conv)+)

lemma extends_save_and_count:
  assumes "extends s0 s"
  shows "extends s0 (snd (save_and_count env p aid th ia s))"
  by (cases ia; simp add: save_and_count_def; (rule extends_rules assms | assumption | simp only: snd_conv)+)

lemma extends_download_album_photo:
  assumes "extends s0 s"
  shows "extends s0 (snd (download_album_photo env p aid s))"
  by (cases "photo_exists s (ph_id p)"; cases "photo_in_album s (ph_id p) aid";
      simp add: download_album_photo_def Let_def split_def assms;
      (rule extends_rules extends_save_and_count assms | assumption | simp only: snd_conv)+)


lemma extends_photostream_items:
  "extends s0 s \<Longrightarrow> extends s0 (photostream_items env ps s)"
proof (induction ps arbitrary: s)
  case Nil
  then show ?case by simp
next
  case (Cons p ps)
  obtain r s1 where step: "download_photostream_photo env p s = (r, s1)"
    by (cases "download_photostream_photo env p s")
  have s1: "extends s0 s1"
    using extends_download_photostream_photo[OF Cons.prems, of env p] by (simp add: step)
  show ?case
  proof (cases r)
    case (Raised e)
    have "extends s0 (emit (Log (MsgPhotoError (ph_id p))) s1)"
      using s1 by (rule extends_emit) simp
    then show ?thesis
      using Cons.IH by (simp add: step Raised)
  next
    case (Returned b)
    then show ?thesis
      using Cons.IH[OF s1] by (simp add: step)
  qed
qed

lemma extends_album_items:
  "extends s0 s \<Longrightarrow> extends s0 (snd (album_items env aid ps s))"
proof (induction ps arbitrary: s)
  case Nil
  then show ?case by simp
next
  case (Cons p ps)
  show ?case
    unfolding album_items.simps
    by (rule extends_obind) (rule extends_download_album_photo[OF Cons.prems], rule Cons.IH)
qed

lemma user_albums_from_quiet:
  assumes run: "user_albums_from env page acc evs = Some y"
    and quiet: "list_all (\<lambda>e. \<not> storage_event e) evs"
  shows "list_all (\<lambda>e. \<not> storage_event e) (snd y)"
proof -
  have "list_all (\<lambda>e. \<not> storage_event e) evs \<longrightarrow> list_all (\<lambda>e. \<not> storage_event e) (snd y)"
    by (rule user_albums_from.raw_induct
          [where P = "\<lambda>env page acc evs y. list_all (\<lambda>e. \<not> storage_event e) evs \<longrightarrow>
                                   list_all (\<lambda>e. \<not> storage_event e) (snd y)", OF _ run])
       (auto split: page_response.splits page_count.splits if_splits)
  with quiet show ?thesis by simp
qed

lemma album_photos_from_quiet:
  assumes run: "album_photos_from env aid page acc evs = Some y"
    and quiet: "list_all (\<lambda>e. \<not> storage_event e) evs"
  shows "list_all (\<lambda>e. \<not> storage_event e) (snd y)"
proof -
  have "list_all (\<lambda>e. \<not> storage_event e) evs \<longrightarrow> list_all (\<lambda>e. \<not> storage_event e) (snd y)"
    by (rule album_photos_from.raw_induct
          [where P = "\<lambda>env aid page acc evs y. list_all (\<lambda>e. \<not> storage_event e) evs \<longrightarrow>
                                   list_all (\<lambda>e. \<not> storage_event e) (snd y)", OF _ run])
       (auto split: page_response.splits page_count.splits if_splits)
  with quiet show ?thesis by simp
qed

lemma photostream_from_quiet:
  assumes run: "photostream_from env page acc evs = Some y"
    and quiet: "list_all (\<lambda>e. \<not> storage_event e) evs"
  shows "list_all (\<lambda>e. \<not> storage_event e) (snd y)"
proof -
  have "list_all (\<lambda>e. \<not> storage_event e) evs \<longrightarrow> list_all (\<lambda>e. \<not> storage_event e) (snd y)"
    by (rule photostream_from.raw_induct
          [where P = "\<lambda>env page acc evs y. list_all (\<lambda>e. \<not> storage_event e) evs \<longrightarrow>
                                   list_all (\<lambda>e. \<not> storage_event e) (snd y)", OF _ run])
       (auto split: page_response.splits page_count.splits if_splits)
  with quiet show ?thesis by simp
qed

lemma extends_update_photostream:
  assumes "update_photostream env s = Some s'" and "extends s0 s"
  shows "extends s0 s'"
proof -
  from assms(1) obtain all_photos evs where
    f: "photostream_from env 1 [] [] = Some (all_photos, evs)"
    and s': "s' = photostream_items env (filter (\<lambda>p. \<not> photo_exists s (ph_id p)) all_photos)
               (emits (Log (MsgCheckingPhotostream 90) # evs) s)"
    by (auto simp: update_photostream_def get_recent_photostream_photos_def
          split: option.splits prod.splits)
  have "list_all (\<lambda>e. \<not> storage_event e) evs"
    using photostream_from_quiet[OF f] by simp
  then have "extends s0 (emits (Log (MsgCheckingPhotostream 90) # evs) s)"
    using assms(2) by (intro extends_emits) simp_all
  then show ?thesis
    unfolding s' by (rule extends_photostream_items)
qed

lemma extends_update_album_incremental:
  assumes "update_album_incremental env aid ttl s = Some (r, s')" and "extends s0 s"
  shows "extends s0 s'"
proof -
  from assms(1) obtain r0 evs where
    f: "get_album_photos env aid = Some (r0, evs)"
    and s': "(r, s') = obind (r0, emits evs s) (\<lambda>album_photos s1.
                  obind (save_album_metadata env aid ttl [] (length album_photos) s1)
                    (\<lambda>_ s2. album_items env aid album_photos s2))"
    by (auto simp: update_album_incremental_def split: option.splits prod.splits)
  have "list_all (\<lambda>e. \<not> storage_event e) evs"
    using album_photos_from_quiet[of env aid 1 "[]" "[]"] f by (simp add: get_album_photos_def)
  then have "extends s0 (emits evs s)"
    using assms(2) by (intro extends_emits)
  then have "extends s0 (snd (obind (r0, emits evs s) (\<lambda>album_photos s1.
                  obind (save_album_metadata env aid ttl [] (length album_photos) s1)
                    (\<lambda>_ s2. album_items env aid album_photos s2))))"
    by (intro extends_obind extends_save_album_metadata extends_album_items) simp_all
  then show ?thesis
    by (simp flip: s')
qed

lemma extends_albums_loop:
  "albums_loop env als s = Some (r, s') \<Longrightarrow> extends s0 s \<Longrightarrow> extends s0 s'"
proof (induction als arbitrary: s)
  case Nil
  then show ?case by simp
next
  case (Cons a als)
  show ?case
  proof (cases "album_title_of env a")
    case (Raised e)
    then show ?thesis using Cons.prems by simp
  next
    case (Returned ttl)
    with Cons.prems(1) obtain r1 s1 where
      u: "update_album_incremental env (al_id a) ttl s = Some (r1, s1)"
      by (auto split: option.splits)
    have s1: "extends s0 s1"
      using u Cons.prems(2) by (rule extends_update_album_incremental)
    show ?thesis
    proof (cases r1)
      case (Raised e)
      have "extends s0 (emit (Log (MsgAlbumError (al_id a))) s1)"
        using s1 by (rule extends_emit) simp
      with Cons.prems(1) show ?thesis
        by (simp add: Returned u Raised Cons.IH)
    next
      case (Returned b)
      with Cons.prems(1) s1 show ?thesis
        by (simp add: \<open>album_title_of env a = Returned ttl\<close> u Cons.IH)
    qed
  qed
qed

lemma extends_update_albums:
  assumes "update_albums env s = Some (r, s')" and "extends s0 s"
  shows "extends s0 s'"
proof -
  from assms(1) obtain r0 evs where f: "get_user_albums env = Some (r0, evs)"
    by (auto simp: update_albums_def split: option.splits prod.splits)
  have "list_all (\<lambda>e. \<not> storage_event e) evs"
    using user_albums_from_quiet[of env 1 "[]" "[]"] f by (simp add: get_user_albums_def)
  then have e: "extends s0 (emits evs s)"
    using assms(2) by (intro extends_emits)
  show ?thesis
  proof (cases r0)
    case (Raised x)
    have "extends s0 (emit (Log MsgAlbumsError) (emits evs s))"
      using e by (rule extends_emit) simp
    with assms(1) show ?thesis
      by (simp add: update_albums_def f Raised)
  next
    case (Returned als)
    with assms(1) have "albums_loop env als (emits evs s) = Some (r, s')"
      by (simp add: update_albums_def f)
    then show ?thesis using e by (rule extends_albums_loop)
  qed
qed

lemma extends_comprehensive_update:
  assumes "comprehensive_update env s = Some (r, s')"
  shows "extends s s'"
proof -
  from assms obtain s1 where p: "update_photostream env s = Some s1"
    and a: "update_albums env s1 = Some (r, s')"
    by (auto simp: comprehensive_update_def split: option.splits)
  have "extends s s1"
    using p extends_refl by (rule extends_update_photostream)
  with a show ?thesis by (rule extends_update_albums)
qed

section \<open>Link-only reconciliation (C1)\<close>

text \<open>
  C1. During an album sweep, a remote photo that exists locally and is not yet linked
  to the album should get its link and nothing else: no detail, thumbnail or comment
  request, and an unchanged photo row. The requests are indeed not made, but the code
  saves through \<^verbatim>\<open>save_photo_metadata_junction\<close> with no thumbnail, which replaces the
  photo row by one built from the album listing: in the store that holds p1 with its
  thumbnail, the sweep of album A commits a photo row for p1 whose
  \<open>thumbnail_path\<close> is empty.
\<close>

theorem link_only_rewrites_photo_row:
  "case download_album_photo trip_env photo_p1 ''A'' (init_updater db_p1) of
     (r, s) \<Rightarrow>
       r = Returned True \<and>
       trace s = [CommitPhoto ''p1'', CommitLink ''p1'' ''A''] \<and>
       map_option thumbnail_path (map_of (photos db_p1) ''p1'') = Some ''thumbnails/p1.jpg'' \<and>
       map_option thumbnail_path (map_of (photos (store s)) ''p1'') = Some []"
  by code_simp

section \<open>Photo before link (C2)\<close>

text \<open>
  C2. For every photo-album link row written, a photo row with the same photo id is in
  storage when the link is committed: in every path of a run that writes a link, the
  photo row is committed first. Stated on the trace of a whole run: replayed from no
  stored photo at all, every link commit finds its photo committed earlier in the same
  run; the stored photo ids are the ones before the run and the ones committed in it
  (no row is ever removed); and a store whose links all reference photos stays so.
\<close>

theorem photo_committed_before_link:
  assumes "comprehensive_update env s = Some (r, s')"
  shows "\<exists>t. trace s' = trace s @ t \<and> commits_in_order {} t \<and>
             photo_ids (store s') = photo_ids (store s) \<union> photo_commits t \<and>
             (links_reference_photos (store s) \<longrightarrow> links_reference_photos (store s'))"
  using extends_comprehensive_update[OF assms] unfolding extends_def by blast

theorem photo_committed_before_link_witness:
  "\<exists>r s'. comprehensive_update trip_env (init_updater empty_db) = Some (r, s') \<and>
      links_reference_photos (store (init_updater empty_db)) \<and>
      map link_key (photo_albums (store s')) = [(''p1'', ''A''), (''p2'', ''A'')] \<and>
      (\<exists>t. trace s' = trace (init_updater empty_db) @ t \<and> commits_in_order {} t \<and>
           photo_ids (store s') = photo_ids (store (init_updater empty_db)) \<union> photo_commits t) \<and>
      links_reference_photos (store s')"
proof -
  have "comprehensive_update trip_env (init_updater empty_db) \<noteq> None"
    by code_simp
  then obtain r s' where run: "comprehensive_update trip_env (init_updater empty_db) = Some (r, s')"
    by auto
  have start: "links_reference_photos (store (init_updater empty_db))"
    by code_simp
  have "case comprehensive_update trip_env (init_updater empty_db) of
          None \<Rightarrow> False
        | Some (r, s') \<Rightarrow> map link_key (photo_albums (store s')) = [(''p1'', ''A''), (''p2'', ''A'')]"
    by code_simp
  then have links: "map link_key (photo_albums (store s')) = [(''p1'', ''A''), (''p2'', ''A'')]"
    unfolding run by simp
  from photo_committed_before_link[OF run] start obtain t where
    t: "trace s' = trace (init_updater empty_db) @ t" "commits_in_order {} t"
       "photo_ids (store s') = photo_ids (store (init_updater empty_db)) \<union> photo_commits t"
       "links_reference_photos (store s')"
    by auto
  show ?thesis
    by (intro exI[of _ r] exI[of _ s'] exI[of _ t] conjI) (fact run start links t)+
qed

section \<open>Idempotence of a full sync (C3)\<close>

text \<open>
  C3. A second full sync against an unchanged remote should count no new photo and no
  new association. The album path counts a new photo before it writes the row; when
  the write raises (here \<^verbatim>\<open>int\<close> of a view count that is not a number), the photo is
  counted and not stored, and the next run counts it again. (The last section shows
  that a run without any reported error is followed by a run that counts nothing.)
\<close>

theorem second_run_counts_unsaved_photo_again:
  "case comprehensive_update odd_env (init_updater empty_db) of
     None \<Rightarrow> False
   | Some (r1, s1) \<Rightarrow>
       photos (store s1) = [] \<and> new_photos_count s1 = 1 \<and>
       (case comprehensive_update odd_env (init_updater (store s1)) of
          None \<Rightarrow> False
        | Some (r2, s2) \<Rightarrow> r2 = Returned () \<and> new_photos_count s2 = 1)"
  by code_simp

section \<open>Write-then-index (C4)\<close>

text \<open>
  C4. A photo row should be committed before its id enters the in-memory index, on both
  paths. The photostream path does so; the album path adds the id (and counts the
  photo) first and writes afterwards, and when the write raises the index holds an id
  that storage does not.
\<close>

theorem album_path_indexes_before_write:
  "(case download_album_photo trip_env photo_p1 ''A'' (init_updater empty_db) of
      (r, s) \<Rightarrow>
        r = Returned True \<and>
        trace s = [ApiGetInfo ''p1'', ThumbnailDownload ''p1'', ApiGetComments ''p1'',
                   IndexAdd ''p1'', CommitPhoto ''p1'', CommitLink ''p1'' ''A'']) \<and>
   (case download_photostream_photo trip_env photo_p1 (init_updater empty_db) of
      (r, s) \<Rightarrow>
        r = Returned True \<and>
        trace s = [ApiGetInfo ''p1'', ThumbnailDownload ''p1'', ApiGetComments ''p1'',
                   CommitPhoto ''p1'', IndexAdd ''p1'']) \<and>
   (case download_album_photo odd_env photo_odd ''A'' (init_updater empty_db) of
      (r, s) \<Rightarrow>
        r = Raised ValueError \<and> existing_photo_ids s = {''p9''} \<and>
        photos (store s) = [] \<and> new_photos_count s = 1)"
  by code_simp

section \<open>Classification table (C5)\<close>

text \<open>
  C5, as the specification states it: for every sweep context and every combination
  of "photo exists" and "link exists", the counters incremented are those of the table
  of section 4.4; in particular a photo of an album sweep that does not exist locally
  increments new photos only. The code increments new associations as well: in the
  empty store, the sweep of album A over p1 leaves the counters at (1, 1, 0, 0), which
  is not what the table gives.
\<close>

theorem album_new_photo_counts_association:
  "case process_item trip_env (AlbumSweep ''A'') photo_p1 (init_updater empty_db) of
     (r, s) \<Rightarrow>
       r = Returned True \<and>
       counters s = (1, 1, 0, 0) \<and>
       counters s \<noteq>
         plus4 (counters (init_updater empty_db))
           (table_counters (AlbumSweep ''A'')
              (photo_exists (init_updater empty_db) (ph_id photo_p1))
              (linked (AlbumSweep ''A'') (init_updater empty_db) photo_p1))"
  by code_simp

text \<open>
  C5, amended. Whenever the processing of an item returns: the counters grow as in the
  table, except that a new photo of an album sweep counts as a new photo and as a new
  association; detail and comments are requested exactly when the photo does not
  exist, and a thumbnail only then; a link is persisted exactly in an album sweep for a
  photo that does not exist or is not linked; a photo that does not exist is
  persisted; an existing photo of the photostream and a linked photo of an album take
  no action and leave the store as it is; and the call answers whether it did
  anything.
\<close>

theorem classification_as_counted:
  assumes "process_item env sw p s = (Returned b, s')"
  shows "counters s' = plus4 (counters s) (counted sw (photo_exists s (ph_id p)) (linked sw s p)) \<and>
         (FetchDetail \<in> set (actions_between s s')) = (\<not> photo_exists s (ph_id p)) \<and>
         (FetchComments \<in> set (actions_between s s')) = (\<not> photo_exists s (ph_id p)) \<and>
         (DownloadThumbnail \<in> set (actions_between s s') \<longrightarrow> \<not> photo_exists s (ph_id p)) \<and>
         (PersistLink \<in> set (actions_between s s')) =
           (sw \<noteq> PhotostreamSweep \<and> \<not> (photo_exists s (ph_id p) \<and> linked sw s p)) \<and>
         (\<not> photo_exists s (ph_id p) \<longrightarrow> PersistPhoto \<in> set (actions_between s s')) \<and>
         (photo_exists s (ph_id p) \<and> (sw = PhotostreamSweep \<or> linked sw s p) \<longrightarrow>
            actions_between s s' = [] \<and> store s' = store s) \<and>
         b = (\<not> photo_exists s (ph_id p) \<or> (sw \<noteq> PhotostreamSweep \<and> \<not> linked sw s p))"
proof (cases sw)
  case PhotostreamSweep
  with assms show ?thesis
    by (auto simp: process_item_def linked_def download_photostream_photo_def obind_def
          get_photo_info_def Let_def thumbnail_of_def download_thumbnail_def
          get_photo_comments_def save_comments_def save_photo_metadata_standalone_def
          emit_def counters_def counted_def actions_between_def
        split: outcome.splits prod.splits option.splits if_splits)
next
  case (AlbumSweep aid)
  with assms show ?thesis
    by (auto simp: process_item_def linked_def download_album_photo_def obind_def
          get_photo_info_def Let_def thumbnail_of_def download_thumbnail_def
          get_photo_comments_def save_comments_def save_and_count_def
          save_photo_metadata_junction_def save_photo_metadata_standalone_def
          emit_def counters_def counted_def actions_between_def
        split: outcome.splits prod.splits option.splits if_splits)
qed

theorem classification_as_counted_witness:
  "process_item trip_env (AlbumSweep ''A'') photo_p1 (init_updater db_p1) =
     (Returned True, snd (process_item trip_env (AlbumSweep ''A'') photo_p1 (init_updater db_p1))) \<and>
   photo_exists (init_updater db_p1) (ph_id photo_p1) \<and>
   \<not> linked (AlbumSweep ''A'') (init_updater db_p1) photo_p1 \<and>
   counters (snd (process_item trip_env (AlbumSweep ''A'') photo_p1 (init_updater db_p1))) =
     (0, 1, 0, 0) \<and>
   FetchDetail \<notin> set (actions_between (init_updater db_p1)
     (snd (process_item trip_env (AlbumSweep ''A'') photo_p1 (init_updater db_p1)))) \<and>
   FetchComments \<notin> set (actions_between (init_updater db_p1)
     (snd (process_item trip_env (AlbumSweep ''A'') photo_p1 (init_updater db_p1)))) \<and>
   DownloadThumbnail \<notin> set (actions_between (init_updater db_p1)
     (snd (process_item trip_env (AlbumSweep ''A'') photo_p1 (init_updater db_p1)))) \<and>
   PersistLink \<in> set (actions_between (init_updater db_p1)
     (snd (process_item trip_env (AlbumSweep ''A'') photo_p1 (init_updater db_p1))))"
proof -
  let ?s = "init_updater db_p1"
  let ?s' = "snd (process_item trip_env (AlbumSweep ''A'') photo_p1 ?s)"
  have run: "process_item trip_env (AlbumSweep ''A'') photo_p1 ?s = (Returned True, ?s')"
    by code_simp
  have ex: "photo_exists ?s (ph_id photo_p1)"
    by code_simp
  have ln: "\<not> linked (AlbumSweep ''A'') ?s photo_p1"
    by code_simp
  have c: "plus4 (counters ?s) (counted (AlbumSweep ''A'') True False) = (0, 1, 0, 0)"
    by code_simp
  from classification_as_counted[OF run] ex ln c show ?thesis
    using run by simp
qed

section \<open>Failure isolation per item (C6)\<close>

text \<open>
  C6. An error raised for one item should not abort its sweep. The photostream loop
  catches it and goes on to the next photo; the album loop has no handler, so the
  failed detail request for p1 ends the sweep of the album before p2 is looked at.
\<close>

theorem album_sweep_stops_at_failed_detail:
  "(case update_album_incremental down_env ''A'' (JStr ''Trip'') (init_updater empty_db) of
      None \<Rightarrow> False
    | Some (r, s) \<Rightarrow>
        r = Raised TransportError \<and> photos (store s) = [] \<and>
        ApiGetInfo ''p2'' \<notin> set (trace s)) \<and>
   (case update_photostream down_env (init_updater empty_db) of
      None \<Rightarrow> False
    | Some s \<Rightarrow>
        map fst (photos (store s)) = [''p2''] \<and>
        Log (MsgPhotoError ''p1'') \<in> set (trace s) \<and> ApiGetInfo ''p2'' \<in> set (trace s))"
  by code_simp

section \<open>A page that is refused (C7)\<close>

lemma user_albums_from_continues:
  assumes "continues_upto (photosets_getList env) k"
  shows "user_albums_from env 1 [] [] =
         user_albums_from env (Suc k) (items_upto (photosets_getList env) k)
           (map ApiAlbumsPage [1 ..< Suc k])"
  using assms
proof (induction k)
  case 0
  then show ?case by simp
next
  case (Suc k)
  then obtain xs n where ok: "photosets_getList env (Suc k) = PageOk xs (Pages n)" "int (Suc k) < n"
    by (auto split: page_response.splits page_count.splits)
  have "user_albums_from env (Suc k) (items_upto (photosets_getList env) k)
          (map ApiAlbumsPage [1 ..< Suc k]) =
        user_albums_from env (Suc (Suc k)) (items_upto (photosets_getList env) (Suc k))
          (map ApiAlbumsPage [1 ..< Suc (Suc k)])"
    using ok by (subst user_albums_from.simps) simp
  with Suc show ?case by simp
qed

lemma album_photos_from_continues:
  assumes "continues_upto (photosets_getPhotos env aid) k"
  shows "album_photos_from env aid 1 [] [] =
         album_photos_from env aid (Suc k) (items_upto (photosets_getPhotos env aid) k)
           (map (ApiAlbumPhotosPage aid) [1 ..< Suc k])"
  using assms
proof (induction k)
  case 0
  then show ?case by simp
next
  case (Suc k)
  then obtain xs n where ok: "photosets_getPhotos env aid (Suc k) = PageOk xs (Pages n)" "int (Suc k) < n"
    by (auto split: page_response.splits page_count.splits)
  have "album_photos_from env aid (Suc k) (items_upto (photosets_getPhotos env aid) k)
          (map (ApiAlbumPhotosPage aid) [1 ..< Suc k]) =
        album_photos_from env aid (Suc (Suc k)) (items_upto (photosets_getPhotos env aid) (Suc k))
          (map (ApiAlbumPhotosPage aid) [1 ..< Suc (Suc k)])"
    using ok by (subst album_photos_from.simps) simp
  with Suc show ?case by simp
qed

lemma photostream_from_continues:
  assumes "continues_upto (people_getPhotos env) k" and "nonempty_upto (people_getPhotos env) k"
  shows "photostream_from env 1 [] [] =
         photostream_from env (Suc k) (items_upto (people_getPhotos env) k)
           (map ApiPhotostreamPage [1 ..< Suc k])"
  using assms
proof (induction k)
  case 0
  then show ?case by simp
next
  case (Suc k)
  then obtain xs n where ok: "people_getPhotos env (Suc k) = PageOk xs (Pages n)"
    "int (Suc k) < n" "xs \<noteq> []"
    by (auto split: page_response.splits page_count.splits)
  have "photostream_from env (Suc k) (items_upto (people_getPhotos env) k)
          (map ApiPhotostreamPage [1 ..< Suc k]) =
        photostream_from env (Suc (Suc k)) (items_upto (people_getPhotos env) (Suc k))
          (map ApiPhotostreamPage [1 ..< Suc (Suc k)])"
    using ok by (subst photostream_from.simps) simp
  with Suc show ?case by simp
qed

text \<open>
  C7, as the specification states it: when a page request does not report success,
  the fetch stops and surfaces the error together with the partial results gathered so
  far. No fetch of the code does both: with a first page that answers and a second
  that is refused, the photos of an album come back as a plain list with no error, and
  the album listing raises an error that carries no album.
\<close>

theorem refused_page_not_surfaced_with_partial:
  "(case get_album_photos refused_env ''A'' of
      None \<Rightarrow> False
    | Some (r, evs) \<Rightarrow>
        r = Returned [photo_p1] \<and> \<not> surfaces_error_with_partial r [photo_p1]) \<and>
   (case get_user_albums refused_env of
      None \<Rightarrow> False
    | Some (r, evs) \<Rightarrow>
        r = Raised (ApiError ''Service unavailable'') \<and>
        \<not> surfaces_error_with_partial r [album_trip])"
  by code_simp

text \<open>
  C7, amended. When pages 1 to k answer and promise more and page k+1 is refused with
  a message, every fetch stops at page k+1 (no later page is requested) and: the album
  listing raises an error with the message, and the albums gathered are not returned;
  the photos of an album are returned as gathered, with no error; the photostream
  fetch prints the message and returns the photos gathered that the index does not
  hold.
\<close>

theorem refused_page_ends_fetch:
  "(continues_upto (photosets_getList env) k \<and> photosets_getList env (Suc k) = PageFail m \<longrightarrow>
      get_user_albums env =
        Some (Raised (ApiError m), map ApiAlbumsPage [1 ..< Suc (Suc k)])) \<and>
   (continues_upto (photosets_getPhotos env aid) k \<and>
    photosets_getPhotos env aid (Suc k) = PageFail m \<longrightarrow>
      get_album_photos env aid =
        Some (Returned (items_upto (photosets_getPhotos env aid) k),
              map (ApiAlbumPhotosPage aid) [1 ..< Suc (Suc k)])) \<and>
   (continues_upto (people_getPhotos env) k \<and> nonempty_upto (people_getPhotos env) k \<and>
    people_getPhotos env (Suc k) = PageFail m \<longrightarrow>
      get_recent_photostream_photos env days_back s =
        Some (filter (\<lambda>p. \<not> photo_exists s (ph_id p)) (items_upto (people_getPhotos env) k),
              emits (Log (MsgCheckingPhotostream days_back) #
                     map ApiPhotostreamPage [1 ..< Suc (Suc k)] @
                     [Log (MsgPhotostreamError m)]) s))"
proof (intro conjI impI)
  assume a: "continues_upto (photosets_getList env) k \<and> photosets_getList env (Suc k) = PageFail m"
  then have h: "user_albums_from env (Suc k) (items_upto (photosets_getList env) k)
               (map ApiAlbumsPage [1 ..< Suc k]) =
             Some (Raised (ApiError m), map ApiAlbumsPage [1 ..< Suc (Suc k)])"
    by (subst user_albums_from.simps) simp
  have c: "user_albums_from env 1 [] [] =
      user_albums_from env (Suc k) (items_upto (photosets_getList env) k)
        (map ApiAlbumsPage [1 ..< Suc k])"
    using a by (intro user_albums_from_continues) simp
  show "get_user_albums env =
      Some (Raised (ApiError m), map ApiAlbumsPage [1 ..< Suc (Suc k)])"
    unfolding get_user_albums_def c by (rule h)
next
  assume a: "continues_upto (photosets_getPhotos env aid) k \<and>
    photosets_getPhotos env aid (Suc k) = PageFail m"
  then have h: "album_photos_from env aid (Suc k) (items_upto (photosets_getPhotos env aid) k)
               (map (ApiAlbumPhotosPage aid) [1 ..< Suc k]) =
             Some (Returned (items_upto (photosets_getPhotos env aid) k),
                   map (ApiAlbumPhotosPage aid) [1 ..< Suc (Suc k)])"
    by (subst album_photos_from.simps) simp
  have c: "album_photos_from env aid 1 [] [] =
      album_photos_from env aid (Suc k) (items_upto (photosets_getPhotos env aid) k)
        (map (ApiAlbumPhotosPage aid) [1 ..< Suc k])"
    using a by (intro album_photos_from_continues) simp
  show "get_album_photos env aid =
      Some (Returned (items_upto (photosets_getPhotos env aid) k),
            map (ApiAlbumPhotosPage aid) [1 ..< Suc (Suc k)])"
    unfolding get_album_photos_def c by (rule h)
next
  assume a: "continues_upto (people_getPhotos env) k \<and> nonempty_upto (people_getPhotos env) k \<and>
    people_getPhotos env (Suc k) = PageFail m"
  then have h: "photostream_from env (Suc k) (items_upto (people_getPhotos env) k)
               (map ApiPhotostreamPage [1 ..< Suc k]) =
             Some (items_upto (people_getPhotos env) k,
                   map ApiPhotostreamPage [1 ..< Suc (Suc k)] @ [Log (MsgPhotostreamError m)])"
    by (subst photostream_from.simps) simp
  have c: "photostream_from env 1 [] [] =
      photostream_from env (Suc k) (items_upto (people_getPhotos env) k)
        (map ApiPhotostreamPage [1 ..< Suc k])"
    using a by (intro photostream_from_continues) simp_all
  show "get_recent_photostream_photos env days_back s =
        Some (filter (\<lambda>p. \<not> photo_exists s (ph_id p)) (items_upto (people_getPhotos env) k),
              emits (Log (MsgCheckingPhotostream days_back) #
                     map ApiPhotostreamPage [1 ..< Suc (Suc k)] @
                     [Log (MsgPhotostreamError m)]) s)"
    unfolding get_recent_photostream_photos_def c h by simp
qed

theorem refused_page_ends_fetch_witness:
  "continues_upto (photosets_getList refused_env) 1 \<and>
   photosets_getList refused_env 2 = PageFail ''Service unavailable'' \<and>
   get_user_albums refused_env =
     Some (Raised (ApiError ''Service unavailable''), [ApiAlbumsPage 1, ApiAlbumsPage 2]) \<and>
   continues_upto (photosets_getPhotos refused_env ''A'') 1 \<and>
   photosets_getPhotos refused_env ''A'' 2 = PageFail ''Service unavailable'' \<and>
   get_album_photos refused_env ''A'' =
     Some (Returned [photo_p1], [ApiAlbumPhotosPage ''A'' 1, ApiAlbumPhotosPage ''A'' 2]) \<and>
   continues_upto (people_getPhotos refused_env) 1 \<and>
   nonempty_upto (people_getPhotos refused_env) 1 \<and>
   people_getPhotos refused_env 2 = PageFail ''Service unavailable'' \<and>
   get_recent_photostream_photos refused_env 90 (init_updater empty_db) =
     Some ([photo_p1],
           emits [Log (MsgCheckingPhotostream 90), ApiPhotostreamPage 1, ApiPhotostreamPage 2,
                  Log (MsgPhotostreamError ''Service unavailable'')] (init_updater empty_db))"
proof -
  have a: "continues_upto (photosets_getList refused_env) (Suc 0)"
    "photosets_getList refused_env (Suc (Suc 0)) = PageFail ''Service unavailable''"
    "items_upto (photosets_getList refused_env) (Suc 0) = [album_trip]"
    by code_simp+
  have b: "continues_upto (photosets_getPhotos refused_env ''A'') (Suc 0)"
    "photosets_getPhotos refused_env ''A'' (Suc (Suc 0)) = PageFail ''Service unavailable''"
    "items_upto (photosets_getPhotos refused_env ''A'') (Suc 0) = [photo_p1]"
    by code_simp+
  have c: "continues_upto (people_getPhotos refused_env) (Suc 0)"
    "nonempty_upto (people_getPhotos refused_env) (Suc 0)"
    "people_getPhotos refused_env (Suc (Suc 0)) = PageFail ''Service unavailable''"
    "items_upto (people_getPhotos refused_env) (Suc 0) = [photo_p1]"
    by code_simp+
  have d: "filter (\<lambda>p. \<not> photo_exists (init_updater empty_db) (ph_id p)) [photo_p1] = [photo_p1]"
    by code_simp
  have n: "(2::nat) = Suc (Suc 0)" "(1::nat) = Suc 0"
    by simp_all
  from refused_page_ends_fetch[of refused_env "Suc 0" "''Service unavailable''" "''A''" 90
      "init_updater empty_db"] a b c d
  show ?thesis
    unfolding n by simp
qed

section \<open>No duplicate links (C8)\<close>

lemma sync_run_no_duplicate_links:
  assumes "sync_run env d = Some d'" and "no_duplicate_links d"
  shows "no_duplicate_links d'"
proof -
  from assms(1) obtain r s where run: "comprehensive_update env (init_updater d) = Some (r, s)"
    and d': "d' = store s"
    by (auto simp: sync_run_def split: option.splits prod.splits)
  from extends_comprehensive_update[OF run] assms(2) show ?thesis
    by (auto simp: extends_def d' init_updater_def)
qed

text \<open>
  C8. For every pair of photo id and album id, at most one link row exists after any
  number of sync runs (each against its own state of the remote), and inserting a pair
  again is a no-op that raises nothing: the insert leaves the table as it is, and the
  save that issues it returns normally whenever its photo write did.
\<close>

theorem link_rows_stay_unique:
  assumes "no_duplicate_links d" and "sync_runs envs d = Some d'"
  shows "no_duplicate_links d' \<and>
         (\<forall>r t. link_key r \<in> set (map link_key t) \<longrightarrow> insert_or_ignore r t = t) \<and>
         (\<forall>env p aid th s.
            photo_in_album s (ph_id p) aid \<and>
            fst (save_photo_metadata_standalone env p th s) = Returned () \<longrightarrow>
              fst (save_photo_metadata_junction env p aid th s) = Returned () \<and>
              photo_albums (store (snd (save_photo_metadata_junction env p aid th s))) =
                photo_albums (store s))"
proof (intro conjI allI impI)
  show "no_duplicate_links d'"
    using assms(2,1)
  proof (induction envs arbitrary: d)
    case Nil
    then show ?case by simp
  next
    case (Cons e es)
    then obtain d1 where d1: "sync_run e d = Some d1" "sync_runs es d1 = Some d'"
      by (auto split: option.splits)
    from d1(1) Cons.prems(2) have "no_duplicate_links d1"
      by (rule sync_run_no_duplicate_links)
    with Cons.IH d1(2) show ?case by blast
  qed
next
  fix r t
  assume "link_key r \<in> set (map link_key t)"
  then show "insert_or_ignore r t = t"
    by (simp add: insert_or_ignore_def)
next
  fix env p aid th s
  assume a: "photo_in_album s (ph_id p) aid \<and>
    fst (save_photo_metadata_standalone env p th s) = Returned ()"
  then show "fst (save_photo_metadata_junction env p aid th s) = Returned ()"
    by (cases "save_photo_metadata_standalone env p th s")
       (simp add: save_photo_metadata_junction_def obind_def)
  from a show "photo_albums (store (snd (save_photo_metadata_junction env p aid th s))) =
      photo_albums (store s)"
    by (cases "photo_row_of (py_repr env) p th")
       (simp_all add: save_photo_metadata_junction_def save_photo_metadata_standalone_def
          obind_def emit_def photo_in_album_def insert_or_ignore_def link_key_def)
qed

theorem link_rows_stay_unique_witness:
  "\<exists>d'. no_duplicate_links empty_db \<and>
        sync_runs [trip_env, trip_env] empty_db = Some d' \<and>
        map link_key (photo_albums d') = [(''p1'', ''A''), (''p2'', ''A'')] \<and>
        no_duplicate_links d'"
proof -
  have "sync_runs [trip_env, trip_env] empty_db \<noteq> None"
    by code_simp
  then obtain d' where run: "sync_runs [trip_env, trip_env] empty_db = Some d'"
    by auto
  have start: "no_duplicate_links empty_db"
    by code_simp
  have "case sync_runs [trip_env, trip_env] empty_db of
          None \<Rightarrow> False
        | Some d' \<Rightarrow> map link_key (photo_albums d') = [(''p1'', ''A''), (''p2'', ''A'')]"
    by code_simp
  then have links: "map link_key (photo_albums d') = [(''p1'', ''A''), (''p2'', ''A'')]"
    unfolding run by simp
  from link_rows_stay_unique[OF start run] have unique: "no_duplicate_links d'"
    by simp
  show ?thesis
    by (intro exI[of _ d'] conjI) (fact run start links unique)+
qed

section \<open>The signature (C9)\<close>

text \<open>
  C9. For every method, URL, parameter set, app secret and (possibly absent) token
  secret, the signer produces the signature of section 4.1: the parameters sorted by
  key, the base string METHOD, url-encoded URL and url-encoded normalized parameters
  joined by \<^verbatim>\<open>&\<close>, HMAC-SHA1 under the key made of the two url-encoded secrets,
  base64. The parameters are the items of a dict (their keys are distinct), and
  \<open>sorted_params\<close> is any arrangement of them in the order of their keys. Signing is a
  function of these inputs alone, and the order in which the dict lists its items
  does not matter.
\<close>

theorem signature_as_specified:
  assumes "distinct (map fst params)"
    and "mset sorted_params = mset params"
    and "sorted (map fst sorted_params)"
  shows "generate_signature lib api_secret token_secret method url params =
           spec_signature lib api_secret token_secret method url sorted_params \<and>
         (\<forall>params'. mset params' = mset params \<longrightarrow>
            generate_signature lib api_secret token_secret method url params' =
            generate_signature lib api_secret token_secret method url params)"
proof -
  have inj: "inj_on fst (set params)"
    using assms(1) by (simp add: distinct_map)
  have s: "sort_key fst params = sorted_params"
    using assms(2)[symmetric] inj assms(3) by (rule sort_key_inj_key_eq)
  have "sort_key fst params' = sort_key fst params" if "mset params' = mset params" for params'
  proof -
    have "inj_on fst (set params')"
      using inj that by (metis set_mset_mset)
    moreover have "mset params' = mset (sort_key fst params)"
      using that by simp
    ultimately show ?thesis
      by (intro sort_key_inj_key_eq) simp_all
  qed
  then show ?thesis
    by (simp add: generate_signature_def spec_signature_def s)
qed

theorem signature_as_specified_witness:
  "distinct (map fst login_params) \<and> mset login_sorted = mset login_params \<and>
   sorted (map fst login_sorted) \<and>
   generate_signature toy_crypto ''s3cret'' None ''get''
     ''https://www.flickr.com/services/rest/'' login_params =
   ''s3cret&|GET&https%3A%2F%2Fwww.flickr.com%2Fservices%2Frest%2F&format%3Djson%26method%3Dflickr.test.login%26nojsoncallback%3D1%26oauth_nonce%3D1714557600''"
proof -
  have d: "distinct (map fst login_params)"
    by code_simp
  have m: "mset login_sorted = mset login_params"
    by (simp add: login_sorted_def login_params_def)
  have s: "sorted (map fst login_sorted)"
    by code_simp
  have v: "spec_signature toy_crypto ''s3cret'' None ''get''
     ''https://www.flickr.com/services/rest/'' login_sorted =
   ''s3cret&|GET&https%3A%2F%2Fwww.flickr.com%2Fservices%2Frest%2F&format%3Djson%26method%3Dflickr.test.login%26nojsoncallback%3D1%26oauth_nonce%3D1714557600''"
    by code_simp
  from signature_as_specified[OF d m s, of toy_crypto "''s3cret''" None "''get''"
      "''https://www.flickr.com/services/rest/''"] d m s v
  show ?thesis by simp
qed

section \<open>The look-back window (C10)\<close>

text \<open>The photostream loop from page 1, when pages 1 to \<open>k\<close> answer with photos and
  promise more and page \<open>k+1\<close> does not: pages 1 to \<open>k+1\<close> are requested, in order,
  and no other; the photos gathered are those of all these pages; after the requests
  come messages only.\<close>

lemma photostream_from_stops:
  assumes c: "continues_upto (people_getPhotos env) k"
    and n: "nonempty_upto (people_getPhotos env) k"
    and stop: "\<not> (continues_upto (people_getPhotos env) (Suc k) \<and>
                  nonempty_upto (people_getPhotos env) (Suc k))"
  shows "\<exists>msgs. photostream_from env 1 [] [] =
           Some (items_upto (people_getPhotos env) (Suc k),
                 map ApiPhotostreamPage [1 ..< Suc (Suc k)] @ map Log msgs)"
proof -
  have st: "photostream_from env 1 [] [] =
      photostream_from env (Suc k) (items_upto (people_getPhotos env) k)
        (map ApiPhotostreamPage [1 ..< Suc k])"
    using c n by (rule photostream_from_continues)
  show ?thesis
  proof (cases "people_getPhotos env (Suc k)")
    case (PageRaise e)
    then have "photostream_from env (Suc k) (items_upto (people_getPhotos env) k)
        (map ApiPhotostreamPage [1 ..< Suc k]) =
      Some (items_upto (people_getPhotos env) (Suc k),
            map ApiPhotostreamPage [1 ..< Suc (Suc k)] @ map Log [MsgPhotostreamPageError (Suc k)])"
      by (subst photostream_from.simps) simp
    then show ?thesis unfolding st by (rule exI)
  next
    case (PageFail m)
    then have "photostream_from env (Suc k) (items_upto (people_getPhotos env) k)
        (map ApiPhotostreamPage [1 ..< Suc k]) =
      Some (items_upto (people_getPhotos env) (Suc k),
            map ApiPhotostreamPage [1 ..< Suc (Suc k)] @ map Log [MsgPhotostreamError m])"
      by (subst photostream_from.simps) simp
    then show ?thesis unfolding st by (rule exI)
  next
    case (PageOk xs pc)
    show ?thesis
    proof (cases "xs = []")
      case True
      with PageOk have "photostream_from env (Suc k) (items_upto (people_getPhotos env) k)
          (map ApiPhotostreamPage [1 ..< Suc k]) =
        Some (items_upto (people_getPhotos env) (Suc k),
              map ApiPhotostreamPage [1 ..< Suc (Suc k)] @ map Log [])"
        by (subst photostream_from.simps) simp
      then show ?thesis unfolding st by (rule exI)
    next
      case False
      show ?thesis
      proof (cases pc)
        case (NoPages e)
        with PageOk False have "photostream_from env (Suc k) (items_upto (people_getPhotos env) k)
            (map ApiPhotostreamPage [1 ..< Suc k]) =
          Some (items_upto (people_getPhotos env) (Suc k),
                map ApiPhotostreamPage [1 ..< Suc (Suc k)] @
                map Log [MsgPhotostreamPageError (Suc k)])"
          by (subst photostream_from.simps) simp
        then show ?thesis unfolding st by (rule exI)
      next
        case (Pages m)
        with PageOk False stop c n have "m \<le> int (Suc k)"
          by simp
        with PageOk False Pages have "photostream_from env (Suc k) (items_upto (people_getPhotos env) k)
            (map ApiPhotostreamPage [1 ..< Suc k]) =
          Some (items_upto (people_getPhotos env) (Suc k),
                map ApiPhotostreamPage [1 ..< Suc (Suc k)] @ map Log [])"
          by (subst photostream_from.simps) simp
        then show ?thesis unfolding st by (rule exI)
      qed
    qed
  qed
qed

text \<open>
  C10. For every value of \<open>days_back\<close>, \<^verbatim>\<open>get_recent_photostream_photos\<close> does the
  same on the same photostream. (1) The photos returned for one value are those
  returned for any other, and the state left is the same with the first printed message
  replaced, whether the fetch returns or not. (2) The entire photostream is fetched:
  when pages 1 to \<open>k\<close> answer with photos and promise more and page \<open>k+1\<close> is the
  last by the server's count, the requests are exactly those of pages 1 to \<open>k+1\<close>,
  and the photos returned are all photos of all these pages that the index does not
  hold. (3) Whatever ends the loop at page \<open>k+1\<close> (the last page, an empty page, a
  refusal, an exception), the requests are those of pages 1 to \<open>k+1\<close>, followed by
  messages only, and the photos returned are all photos gathered that the index does
  not hold. No date enters the filter and no page is left out for any \<open>days_back\<close>.
\<close>

theorem whole_photostream_for_any_days_back:
  "map_option fst (get_recent_photostream_photos env d1 s) =
     map_option fst (get_recent_photostream_photos env d2 s) \<and>
   get_recent_photostream_photos env d1 s =
     map_option
       (\<lambda>(new_photos, s').
          (new_photos,
           s'\<lparr>trace := trace s @ Log (MsgCheckingPhotostream d1) #
                          drop (Suc (length (trace s))) (trace s')\<rparr>))
       (get_recent_photostream_photos env d2 s) \<and>
   (continues_upto (people_getPhotos env) k \<and> nonempty_upto (people_getPhotos env) k \<and>
    people_getPhotos env (Suc k) = PageOk xs (Pages n) \<and> xs \<noteq> [] \<and> n \<le> int (Suc k) \<longrightarrow>
      get_recent_photostream_photos env days_back s =
        Some (filter (\<lambda>p. \<not> photo_exists s (ph_id p)) (items_upto (people_getPhotos env) (Suc k)),
              emits (Log (MsgCheckingPhotostream days_back) #
                     map ApiPhotostreamPage [1 ..< Suc (Suc k)]) s)) \<and>
   (continues_upto (people_getPhotos env) k \<and> nonempty_upto (people_getPhotos env) k \<and>
    \<not> (continues_upto (people_getPhotos env) (Suc k) \<and>
        nonempty_upto (people_getPhotos env) (Suc k)) \<longrightarrow>
      (\<exists>msgs. get_recent_photostream_photos env days_back s =
         Some (filter (\<lambda>p. \<not> photo_exists s (ph_id p))
                 (items_upto (people_getPhotos env) (Suc k)),
               emits (Log (MsgCheckingPhotostream days_back) #
                      map ApiPhotostreamPage [1 ..< Suc (Suc k)] @ map Log msgs) s)))"
proof (intro conjI impI)
  show "map_option fst (get_recent_photostream_photos env d1 s) =
     map_option fst (get_recent_photostream_photos env d2 s)"
    by (cases "photostream_from env 1 [] []")
       (auto simp: get_recent_photostream_photos_def)
next
  show "get_recent_photostream_photos env d1 s =
     map_option
       (\<lambda>(new_photos, s').
          (new_photos,
           s'\<lparr>trace := trace s @ Log (MsgCheckingPhotostream d1) #
                          drop (Suc (length (trace s))) (trace s')\<rparr>))
       (get_recent_photostream_photos env d2 s)"
    by (cases "photostream_from env 1 [] []")
       (auto simp: get_recent_photostream_photos_def emits_def)
next
  assume a: "continues_upto (people_getPhotos env) k \<and> nonempty_upto (people_getPhotos env) k \<and>
    people_getPhotos env (Suc k) = PageOk xs (Pages n) \<and> xs \<noteq> [] \<and> n \<le> int (Suc k)"
  then have h: "photostream_from env (Suc k) (items_upto (people_getPhotos env) k)
               (map ApiPhotostreamPage [1 ..< Suc k]) =
             Some (items_upto (people_getPhotos env) (Suc k),
                   map ApiPhotostreamPage [1 ..< Suc (Suc k)])"
    by (subst photostream_from.simps) simp
  have c: "photostream_from env 1 [] [] =
      photostream_from env (Suc k) (items_upto (people_getPhotos env) k)
        (map ApiPhotostreamPage [1 ..< Suc k])"
    using a by (intro photostream_from_continues) simp_all
  show "get_recent_photostream_photos env days_back s =
        Some (filter (\<lambda>p. \<not> photo_exists s (ph_id p)) (items_upto (people_getPhotos env) (Suc k)),
              emits (Log (MsgCheckingPhotostream days_back) #
                     map ApiPhotostreamPage [1 ..< Suc (Suc k)]) s)"
    unfolding get_recent_photostream_photos_def c h by simp
next
  assume a: "continues_upto (people_getPhotos env) k \<and> nonempty_upto (people_getPhotos env) k \<and>
    \<not> (continues_upto (people_getPhotos env) (Suc k) \<and>
        nonempty_upto (people_getPhotos env) (Suc k))"
  then obtain msgs where m: "photostream_from env 1 [] [] =
           Some (items_upto (people_getPhotos env) (Suc k),
                 map ApiPhotostreamPage [1 ..< Suc (Suc k)] @ map Log msgs)"
    using photostream_from_stops[of env k] by blast
  show "\<exists>msgs. get_recent_photostream_photos env days_back s =
         Some (filter (\<lambda>p. \<not> photo_exists s (ph_id p))
                 (items_upto (people_getPhotos env) (Suc k)),
               emits (Log (MsgCheckingPhotostream days_back) #
                      map ApiPhotostreamPage [1 ..< Suc (Suc k)] @ map Log msgs) s)"
    unfolding get_recent_photostream_photos_def m by (intro exI[of _ msgs]) simp
qed

theorem whole_photostream_for_any_days_back_witness:
  "continues_upto (people_getPhotos paged_env) 1 \<and>
   nonempty_upto (people_getPhotos paged_env) 1 \<and>
   people_getPhotos paged_env 2 = PageOk [photo_p2] (Pages 2) \<and>
   \<not> continues_upto (people_getPhotos paged_env) 2 \<and>
   photo_exists (init_updater db_p1) (ph_id photo_p1) \<and>
   get_recent_photostream_photos paged_env 7 (init_updater db_p1) =
     Some ([photo_p2],
           emits [Log (MsgCheckingPhotostream 7), ApiPhotostreamPage 1, ApiPhotostreamPage 2]
             (init_updater db_p1)) \<and>
   get_recent_photostream_photos paged_env 90 (init_updater db_p1) =
     Some ([photo_p2],
           emits [Log (MsgCheckingPhotostream 90), ApiPhotostreamPage 1, ApiPhotostreamPage 2]
             (init_updater db_p1))"
proof -
  have a: "continues_upto (people_getPhotos paged_env) (Suc 0)"
    "nonempty_upto (people_getPhotos paged_env) (Suc 0)"
    "people_getPhotos paged_env (Suc (Suc 0)) = PageOk [photo_p2] (Pages 2)"
    "\<not> continues_upto (people_getPhotos paged_env) (Suc (Suc 0))"
    "items_upto (people_getPhotos paged_env) (Suc (Suc 0)) = [photo_p1, photo_p2]"
    by code_simp+
  have b: "photo_exists (init_updater db_p1) (ph_id photo_p1)"
    "filter (\<lambda>p. \<not> photo_exists (init_updater db_p1) (ph_id p)) [photo_p1, photo_p2] = [photo_p2]"
    "trace (init_updater db_p1) = []"
    by code_simp+
  have n: "(2::nat) = Suc (Suc 0)" "(1::nat) = Suc 0"
    by simp_all
  from whole_photostream_for_any_days_back[of paged_env 90 "init_updater db_p1" 7 "Suc 0"
      "[photo_p2]" 2 7] a b
  show ?thesis
    unfolding n by (simp add: emits_def)
qed

section \<open>A run without errors is a fixed point\<close>

lemma same_core_refl: "same_core s s"
  by (simp add: same_core_def)

lemma same_core_trans [trans]: "same_core a b \<Longrightarrow> same_core b c \<Longrightarrow> same_core a c"
  by (simp add: same_core_def)

lemma same_core_emit: "same_core s (emit e s)"
  by (simp add: same_core_def emit_def)

lemma same_core_emits: "same_core s (emits evs s)"
  by (simp add: same_core_def emits_def)

lemma same_core_thumbnail_of: "thumbnail_of env pid p s = (r, s') \<Longrightarrow> same_core s s'"
  by (auto simp: thumbnail_of_def download_thumbnail_def same_core_def emit_def
        split: option.splits if_splits)

lemma same_core_get_photo_comments: "get_photo_comments env pid s = (r, s') \<Longrightarrow> same_core s s'"
  by (auto simp: get_photo_comments_def same_core_def emit_def)

lemma same_core_save_comments: "save_comments pid cs s = (r, s') \<Longrightarrow> same_core s s'"
  by (auto simp: save_comments_def same_core_def emit_def split: if_splits outcome.splits)

lemma same_core_save_album_metadata:
  "save_album_metadata env aid ttl descr n s = (r, s') \<Longrightarrow> same_core s s'"
  by (auto simp: save_album_metadata_def same_core_def emit_def split: outcome.splits)

lemma ph_id_update_photo:
  assumes "detail_keeps_id env" and "photos_getInfo env (ph_id p) = Returned info"
  shows "ph_id (update_photo (py_repr env) p info) = ph_id p"
  using assms by (auto simp: update_photo_def detail_keeps_id_def split: option.splits)

lemma photo_in_album_link_keys:
  "photo_in_album s pid aid = ((pid, aid) \<in> link_keys (store s))"
  by (simp add: photo_in_album_def link_keys_def)

lemma keys_insert_or_replace: "fst ` set (insert_or_replace k v t) = insert k (fst ` set t)"
  by (force simp: insert_or_replace_def)

lemma keys_insert_or_ignore:
  "link_key ` set (insert_or_ignore r t) = insert (link_key r) (link_key ` set t)"
  by (auto simp: insert_or_ignore_def)

lemma save_standalone_Returned:
  assumes "save_photo_metadata_standalone env p th s = (Returned u, s')"
  shows "existing_photo_ids s' = existing_photo_ids s"
    and "photo_ids (store s') = insert (ph_id p) (photo_ids (store s))"
    and "link_keys (store s') = link_keys (store s)"
proof -
  from assms obtain r where
    s': "s' = emit (CommitPhoto (ph_id p))
               (s\<lparr>store := (store s)\<lparr>photos := insert_or_replace (ph_id p) r (photos (store s))\<rparr>\<rparr>)"
    by (cases "photo_row_of (py_repr env) p th")
       (auto simp: save_photo_metadata_standalone_def)
  show "existing_photo_ids s' = existing_photo_ids s"
    and "photo_ids (store s') = insert (ph_id p) (photo_ids (store s))"
    and "link_keys (store s') = link_keys (store s)"
    by (simp_all add: s' emit_def photo_ids_def link_keys_def keys_insert_or_replace)
qed

lemma save_junction_Returned:
  assumes "save_photo_metadata_junction env p aid th s = (Returned u, s')"
  shows "existing_photo_ids s' = existing_photo_ids s"
    and "photo_ids (store s') = insert (ph_id p) (photo_ids (store s))"
    and "link_keys (store s') = insert (ph_id p, aid) (link_keys (store s))"
proof -
  from assms obtain r where
    s': "s' = emit (CommitLink (ph_id p) aid)
               ((emit (CommitPhoto (ph_id p))
                  (s\<lparr>store := (store s)\<lparr>photos := insert_or_replace (ph_id p) r (photos (store s))\<rparr>\<rparr>))
                \<lparr>store := (store s)\<lparr>photos := insert_or_replace (ph_id p) r (photos (store s)),
                           photo_albums := insert_or_ignore
                             \<lparr>link_photo_id = ph_id p, link_album_id = aid,
                              is_primary = 1, date_added = clock env\<rparr>
                             (photo_albums (store s))\<rparr>\<rparr>)"
    by (cases "photo_row_of (py_repr env) p th")
       (auto simp: save_photo_metadata_junction_def save_photo_metadata_standalone_def
          obind_def emit_def)
  show "existing_photo_ids s' = existing_photo_ids s"
    and "photo_ids (store s') = insert (ph_id p) (photo_ids (store s))"
    and "link_keys (store s') = insert (ph_id p, aid) (link_keys (store s))"
    by (simp_all add: s' emit_def photo_ids_def link_keys_def keys_insert_or_replace
          keys_insert_or_ignore)
       (simp add: link_key_def)
qed

lemma download_photostream_photo_new:
  assumes "download_photostream_photo env p s = (Returned b, s')"
    and "\<not> photo_exists s (ph_id p)"
  obtains info th s2 cs s3 s4 s5 where
    "photos_getInfo env (ph_id p) = Returned info"
    and "thumbnail_of env (ph_id p) (update_photo (py_repr env) p info)
           (emit (ApiGetInfo (ph_id p)) s) = (th, s2)"
    and "get_photo_comments env (ph_id p) s2 = (cs, s3)"
    and "save_comments (ph_id p) cs s3 = (Returned (), s4)"
    and "save_photo_metadata_standalone env (update_photo (py_repr env) p info) th s4 =
           (Returned (), s5)"
    and "s' = (emit (IndexAdd (ph_id p)) s5)
               \<lparr>existing_photo_ids := insert (ph_id p) (existing_photo_ids s5),
                photostream_new_count := Suc (photostream_new_count s5),
                new_photos_count := Suc (new_photos_count s5)\<rparr>"
  using assms
  by (simp add: download_photostream_photo_def obind_def get_photo_info_def Let_def
        split: outcome.splits prod.splits)

lemma same_core_fetch_steps:
  assumes "thumbnail_of env pid p1 (emit e s) = (th, s2)"
    and "get_photo_comments env pid s2 = (cs, s3)"
    and "save_comments pid cs s3 = (r, s4)"
  shows "same_core s s4"
proof -
  have "same_core s (emit e s)" by (rule same_core_emit)
  also have "same_core (emit e s) s2" using assms(1) by (rule same_core_thumbnail_of)
  also have "same_core s2 s3" using assms(2) by (rule same_core_get_photo_comments)
  also have "same_core s3 s4" using assms(3) by (rule same_core_save_comments)
  finally show ?thesis .
qed

lemma download_photostream_photo_synced:
  assumes "download_photostream_photo env p s = (Returned b, s')" and "synced s"
    and keeps: "detail_keeps_id env"
  shows "synced s' \<and> ph_id p \<in> photo_ids (store s')"
proof (cases "photo_exists s (ph_id p)")
  case True
  with assms show ?thesis
    by (simp add: download_photostream_photo_def synced_def photo_exists_def)
next
  case False
  from assms(1) False obtain info th s2 cs s3 s4 s5 where
    info: "photos_getInfo env (ph_id p) = Returned info"
    and th: "thumbnail_of env (ph_id p) (update_photo (py_repr env) p info)
               (emit (ApiGetInfo (ph_id p)) s) = (th, s2)"
    and cs: "get_photo_comments env (ph_id p) s2 = (cs, s3)"
    and sc: "save_comments (ph_id p) cs s3 = (Returned (), s4)"
    and sv: "save_photo_metadata_standalone env (update_photo (py_repr env) p info) th s4 =
               (Returned (), s5)"
    and s': "s' = (emit (IndexAdd (ph_id p)) s5)
               \<lparr>existing_photo_ids := insert (ph_id p) (existing_photo_ids s5),
                photostream_new_count := Suc (photostream_new_count s5),
                new_photos_count := Suc (new_photos_count s5)\<rparr>"
    by (rule download_photostream_photo_new)
  have "same_core s s4"
    using th cs sc by (rule same_core_fetch_steps)
  then have s4: "existing_photo_ids s4 = existing_photo_ids s"
    "photo_ids (store s4) = photo_ids (store s)"
    by (simp_all add: same_core_def photo_ids_def)
  from save_standalone_Returned[OF sv] s4 assms(2) show ?thesis
    by (simp add: s' synced_def emit_def ph_id_update_photo[OF keeps info])
qed

lemma download_album_photo_skip:
  assumes "photo_exists s (ph_id p)" and "photo_in_album s (ph_id p) aid"
  shows "download_album_photo env p aid s =
           (Returned False, s\<lparr>skipped_photos_count := skipped_photos_count s + 1\<rparr>)"
  using assms by (simp add: download_album_photo_def)

lemma download_album_photo_link_only:
  assumes "download_album_photo env p aid s = (Returned b, s')"
    and "photo_exists s (ph_id p)" and "\<not> photo_in_album s (ph_id p) aid"
  obtains s1 where "save_photo_metadata_junction env p aid None s = (Returned (), s1)"
    and "s' = s1\<lparr>new_associations_count := Suc (new_associations_count s1)\<rparr>"
  using assms
  by (simp add: download_album_photo_def save_and_count_def obind_def
        split: outcome.splits prod.splits)

lemma download_album_photo_new:
  assumes "download_album_photo env p aid s = (Returned b, s')"
    and "\<not> photo_exists s (ph_id p)"
  obtains info th s2 cs s3 s4 s5 where
    "photos_getInfo env (ph_id p) = Returned info"
    and "thumbnail_of env (ph_id p) (update_photo (py_repr env) p info)
           (emit (ApiGetInfo (ph_id p)) s) = (th, s2)"
    and "get_photo_comments env (ph_id p) s2 = (cs, s3)"
    and "save_comments (ph_id p) cs s3 = (Returned (), s4)"
    and "save_photo_metadata_junction env (update_photo (py_repr env) p info) aid th
           ((emit (IndexAdd (ph_id p)) s4)
              \<lparr>existing_photo_ids := insert (ph_id p) (existing_photo_ids s4),
               new_photos_count := Suc (new_photos_count s4)\<rparr>) = (Returned (), s5)"
    and "s' = s5\<lparr>new_associations_count := Suc (new_associations_count s5)\<rparr>"
  using assms
  by (simp add: download_album_photo_def save_and_count_def obind_def get_photo_info_def
        Let_def split: outcome.splits prod.splits)

lemma download_album_photo_synced:
  assumes "download_album_photo env p aid s = (Returned b, s')" and "synced s"
    and keeps: "detail_keeps_id env"
  shows "synced s' \<and> ph_id p \<in> photo_ids (store s') \<and> (ph_id p, aid) \<in> link_keys (store s')"
proof (cases "photo_exists s (ph_id p)")
  case True
  note ex = True
  show ?thesis
  proof (cases "photo_in_album s (ph_id p) aid")
    case True
    with ex assms show ?thesis
      by (auto simp: download_album_photo_skip synced_def photo_exists_def
            photo_in_album_link_keys)
  next
    case False
    from assms(1) ex False obtain s1 where
      sv: "save_photo_metadata_junction env p aid None s = (Returned (), s1)"
      and s': "s' = s1\<lparr>new_associations_count := Suc (new_associations_count s1)\<rparr>"
      by (rule download_album_photo_link_only)
    from save_junction_Returned[OF sv] ex assms(2) show ?thesis
      by (auto simp: s' synced_def photo_exists_def)
  qed
next
  case False
  from assms(1) False obtain info th s2 cs s3 s4 s5 where
    info: "photos_getInfo env (ph_id p) = Returned info"
    and th: "thumbnail_of env (ph_id p) (update_photo (py_repr env) p info)
               (emit (ApiGetInfo (ph_id p)) s) = (th, s2)"
    and cs: "get_photo_comments env (ph_id p) s2 = (cs, s3)"
    and sc: "save_comments (ph_id p) cs s3 = (Returned (), s4)"
    and sv: "save_photo_metadata_junction env (update_photo (py_repr env) p info) aid th
               ((emit (IndexAdd (ph_id p)) s4)
                  \<lparr>existing_photo_ids := insert (ph_id p) (existing_photo_ids s4),
                   new_photos_count := Suc (new_photos_count s4)\<rparr>) = (Returned (), s5)"
    and s': "s' = s5\<lparr>new_associations_count := Suc (new_associations_count s5)\<rparr>"
    by (rule download_album_photo_new)
  have "same_core s s4"
    using th cs sc by (rule same_core_fetch_steps)
  then have s4: "existing_photo_ids s4 = existing_photo_ids s"
    "photo_ids (store s4) = photo_ids (store s)"
    by (simp_all add: same_core_def photo_ids_def)
  from save_junction_Returned[OF sv] s4 assms(2) show ?thesis
    by (simp add: s' synced_def emit_def ph_id_update_photo[OF keeps info])
qed

lemma extends_photo_ids: "extends s s' \<Longrightarrow> photo_ids (store s) \<subseteq> photo_ids (store s')"
  by (auto simp: extends_def)

lemma extends_link_keys: "extends s s' \<Longrightarrow> link_keys (store s) \<subseteq> link_keys (store s')"
  by (auto simp: extends_def)

lemma error_free_back: "extends s s' \<Longrightarrow> error_free s' \<Longrightarrow> error_free s"
  by (auto simp: extends_def error_free_def)

lemma error_reported:
  assumes "error_message e" and "extends (emit e s) s'"
  shows "\<not> error_free s'"
proof
  assume "error_free s'"
  with assms(2) have "error_free (emit e s)" by (rule error_free_back)
  with assms(1) show False by (simp add: error_free_def emit_def)
qed

lemma same_core_synced: "same_core s s' \<Longrightarrow> synced s \<Longrightarrow> synced s'"
  by (simp add: same_core_def synced_def photo_ids_def)

lemma photostream_items_synced:
  assumes "error_free (photostream_items env ps s)" and "synced s" and "detail_keeps_id env"
  shows "synced (photostream_items env ps s) \<and>
         list_all (\<lambda>p. ph_id p \<in> photo_ids (store (photostream_items env ps s))) ps"
  using assms
proof (induction ps arbitrary: s)
  case Nil
  then show ?case by simp
next
  case (Cons p ps)
  obtain r s1 where step: "download_photostream_photo env p s = (r, s1)"
    by (cases "download_photostream_photo env p s")
  show ?case
  proof (cases r)
    case (Raised e)
    have "extends (emit (Log (MsgPhotoError (ph_id p))) s1)
            (photostream_items env ps (emit (Log (MsgPhotoError (ph_id p))) s1))"
      by (rule extends_photostream_items) (rule extends_refl)
    then have "\<not> error_free (photostream_items env ps (emit (Log (MsgPhotoError (ph_id p))) s1))"
      by (rule error_reported[rotated]) simp
    with Cons.prems(1) show ?thesis by (simp add: step Raised)
  next
    case (Returned b)
    let ?f = "photostream_items env ps s1"
    have fin: "photostream_items env (p # ps) s = ?f"
      by (simp add: step Returned)
    from step Returned Cons.prems(2,3) have s1: "synced s1" "ph_id p \<in> photo_ids (store s1)"
      using download_photostream_photo_synced by blast+
    from Cons.prems(1) have "error_free ?f"
      by (simp only: fin)
    from Cons.IH[OF this s1(1) Cons.prems(3)] have ih: "synced ?f"
      "list_all (\<lambda>p. ph_id p \<in> photo_ids (store ?f)) ps"
      by simp_all
    have "extends s1 ?f"
      by (rule extends_photostream_items) (rule extends_refl)
    then have "ph_id p \<in> photo_ids (store ?f)"
      using s1(2) extends_photo_ids by blast
    with ih show ?thesis unfolding fin by simp
  qed
qed

lemma album_items_synced:
  assumes "album_items env aid ps s = (Returned u, s')" and "synced s" and "detail_keeps_id env"
  shows "synced s' \<and>
         list_all (\<lambda>p. ph_id p \<in> photo_ids (store s') \<and> (ph_id p, aid) \<in> link_keys (store s')) ps"
  using assms
proof (induction ps arbitrary: s)
  case Nil
  then show ?case by simp
next
  case (Cons p ps)
  from Cons.prems(1) obtain b s1 where
    step: "download_album_photo env p aid s = (Returned b, s1)"
    and rest: "album_items env aid ps s1 = (Returned u, s')"
    by (auto simp: obind_def split: prod.splits outcome.splits)
  from step Cons.prems(2,3) have s1: "synced s1" "ph_id p \<in> photo_ids (store s1)"
    "(ph_id p, aid) \<in> link_keys (store s1)"
    using download_album_photo_synced by blast+
  from Cons.IH[OF rest s1(1) Cons.prems(3)] have ih: "synced s'"
    "list_all (\<lambda>p. ph_id p \<in> photo_ids (store s') \<and> (ph_id p, aid) \<in> link_keys (store s')) ps"
    by simp_all
  have "extends s1 (snd (album_items env aid ps s1))"
    by (rule extends_album_items) (rule extends_refl)
  then have "extends s1 s'" by (simp add: rest)
  then have "ph_id p \<in> photo_ids (store s')" "(ph_id p, aid) \<in> link_keys (store s')"
    using s1(2,3) extends_photo_ids extends_link_keys by blast+
  with ih show ?case by simp
qed

lemma update_album_incremental_Returned:
  assumes "update_album_incremental env aid ttl s = Some (Returned u, s')"
  obtains ps evs s2 where "get_album_photos env aid = Some (Returned ps, evs)"
    and "save_album_metadata env aid ttl [] (length ps) (emits evs s) = (Returned (), s2)"
    and "album_items env aid ps s2 = (Returned u, s')"
  using assms
  by (auto simp: update_album_incremental_def obind_def
        split: option.splits prod.splits outcome.splits)

lemma update_album_incremental_synced:
  assumes "update_album_incremental env aid ttl s = Some (Returned u, s')" and "synced s"
    and "detail_keeps_id env"
  shows "synced s' \<and> (\<exists>t. sql_bind ttl = Returned t) \<and>
         (\<exists>ps evs. get_album_photos env aid = Some (Returned ps, evs) \<and>
            list_all (\<lambda>p. ph_id p \<in> photo_ids (store s') \<and>
                           (ph_id p, aid) \<in> link_keys (store s')) ps)"
proof -
  from assms(1) obtain ps evs s2 where
    g: "get_album_photos env aid = Some (Returned ps, evs)"
    and m: "save_album_metadata env aid ttl [] (length ps) (emits evs s) = (Returned (), s2)"
    and i: "album_items env aid ps s2 = (Returned u, s')"
    by (rule update_album_incremental_Returned)
  have "same_core s (emits evs s)" by (rule same_core_emits)
  also have "same_core (emits evs s) s2" using m by (rule same_core_save_album_metadata)
  finally have "synced s2" using assms(2) by (rule same_core_synced)
  with i have "synced s' \<and>
      list_all (\<lambda>p. ph_id p \<in> photo_ids (store s') \<and> (ph_id p, aid) \<in> link_keys (store s')) ps"
    using assms(3) by (rule album_items_synced)
  moreover from m have "\<exists>t. sql_bind ttl = Returned t"
    by (cases "sql_bind ttl") (simp_all add: save_album_metadata_def)
  ultimately show ?thesis using g by blast
qed

lemma album_settled_mono:
  assumes "album_settled env d a" and "photo_ids d \<subseteq> photo_ids d'"
    and "link_keys d \<subseteq> link_keys d'"
  shows "album_settled env d' a"
  using assms
  by (auto simp: album_settled_def list_all_iff
        split: outcome.splits option.splits prod.splits)

lemma albums_loop_synced:
  assumes "albums_loop env als s = Some (Returned u, s')" and "error_free s'" and "synced s"
    and "detail_keeps_id env"
  shows "synced s' \<and> list_all (album_settled env (store s')) als"
  using assms
proof (induction als arbitrary: s)
  case Nil
  then show ?case by simp
next
  case (Cons a als)
  from Cons.prems(1) obtain ttl where ttl: "album_title_of env a = Returned ttl"
    by (cases "album_title_of env a") simp_all
  from Cons.prems(1) ttl obtain r1 s1 where
    u: "update_album_incremental env (al_id a) ttl s = Some (r1, s1)"
    by (auto split: option.splits)
  show ?case
  proof (cases r1)
    case (Raised e)
    with Cons.prems(1) ttl u have
      rest: "albums_loop env als (emit (Log (MsgAlbumError (al_id a))) s1) = Some (Returned u, s')"
      by simp
    have "extends (emit (Log (MsgAlbumError (al_id a))) s1) s'"
      using rest extends_refl by (rule extends_albums_loop)
    then have "\<not> error_free s'"
      by (rule error_reported[rotated]) simp
    with Cons.prems(2) show ?thesis by simp
  next
    case (Returned b)
    with Cons.prems(1) ttl u have rest: "albums_loop env als s1 = Some (Returned u, s')"
      by simp
    from u Returned Cons.prems(3,4) obtain t ps evs where
      s1: "synced s1" and t: "sql_bind ttl = Returned t"
      and g: "get_album_photos env (al_id a) = Some (Returned ps, evs)"
      and l: "list_all (\<lambda>p. ph_id p \<in> photo_ids (store s1) \<and>
                            (ph_id p, al_id a) \<in> link_keys (store s1)) ps"
      using update_album_incremental_synced by blast
    have here: "album_settled env (store s1) a"
      by (simp add: album_settled_def ttl t g l)
    have e: "extends s1 s'"
      using rest extends_refl by (rule extends_albums_loop)
    from here have "album_settled env (store s') a"
      by (rule album_settled_mono) (rule extends_photo_ids[OF e], rule extends_link_keys[OF e])
    moreover from Cons.IH[OF rest Cons.prems(2) s1 Cons.prems(4)]
    have "synced s'" "list_all (album_settled env (store s')) als"
      by simp_all
    ultimately show ?thesis by simp
  qed
qed

lemma covers_same_core: "same_core s s' \<Longrightarrow> covers s d \<Longrightarrow> covers s' d"
  by (simp add: same_core_def covers_def link_keys_def)

lemma album_items_skip:
  assumes "list_all (\<lambda>p. photo_exists s (ph_id p) \<and> photo_in_album s (ph_id p) aid) ps"
  shows "\<exists>s'. album_items env aid ps s = (Returned (), s') \<and> same_core s s'"
  using assms
proof (induction ps arbitrary: s)
  case Nil
  then show ?case by (simp add: same_core_refl)
next
  case (Cons p ps)
  let ?s1 = "s\<lparr>skipped_photos_count := skipped_photos_count s + 1\<rparr>"
  from Cons.prems have step: "download_album_photo env p aid s = (Returned False, ?s1)"
    by (simp add: download_album_photo_skip)
  have c: "same_core s ?s1"
    by (simp add: same_core_def)
  from Cons.prems have
    "list_all (\<lambda>p. photo_exists ?s1 (ph_id p) \<and> photo_in_album ?s1 (ph_id p) aid) ps"
    by (simp add: photo_exists_def photo_in_album_def)
  from Cons.IH[OF this] obtain s' where
    rest: "album_items env aid ps ?s1 = (Returned (), s')" and c': "same_core ?s1 s'"
    by blast
  from c c' have "same_core s s'" by (rule same_core_trans)
  moreover have "album_items env aid (p # ps) s = (Returned (), s')"
    using rest by (simp add: step obind_def)
  ultimately show ?case by blast
qed

lemma update_album_incremental_skip:
  assumes "album_settled env d a" and "covers s d" and "album_title_of env a = Returned ttl"
  shows "\<exists>s'. update_album_incremental env (al_id a) ttl s = Some (Returned (), s') \<and>
              same_core s s'"
proof -
  from assms(1,3) obtain t ps evs where t: "sql_bind ttl = Returned t"
    and g: "get_album_photos env (al_id a) = Some (Returned ps, evs)"
    and l: "list_all (\<lambda>p. ph_id p \<in> photo_ids d \<and> (ph_id p, al_id a) \<in> link_keys d) ps"
    by (auto simp: album_settled_def split: outcome.splits option.splits prod.splits)
  obtain s2 where m: "save_album_metadata env (al_id a) ttl [] (length ps) (emits evs s) =
      (Returned (), s2)"
    by (simp add: save_album_metadata_def t)
  have "same_core s (emits evs s)" by (rule same_core_emits)
  also have "same_core (emits evs s) s2" using m by (rule same_core_save_album_metadata)
  finally have c2: "same_core s s2" .
  then have "covers s2 d" using assms(2) by (rule covers_same_core)
  with l have "list_all (\<lambda>p. photo_exists s2 (ph_id p) \<and>
                              photo_in_album s2 (ph_id p) (al_id a)) ps"
    by (auto simp: covers_def photo_exists_def photo_in_album_link_keys list_all_iff)
  then obtain s' where i: "album_items env (al_id a) ps s2 = (Returned (), s')"
    and c': "same_core s2 s'"
    using album_items_skip by blast
  from c2 c' have "same_core s s'" by (rule same_core_trans)
  moreover have "update_album_incremental env (al_id a) ttl s = Some (Returned (), s')"
    by (simp add: update_album_incremental_def g obind_def m i)
  ultimately show ?thesis by blast
qed

lemma albums_loop_skip:
  assumes "list_all (album_settled env d) als" and "covers s d"
  shows "\<exists>s'. albums_loop env als s = Some (Returned (), s') \<and> same_core s s'"
  using assms
proof (induction als arbitrary: s)
  case Nil
  then show ?case by (simp add: same_core_refl)
next
  case (Cons a als)
  from Cons.prems(1) have here: "album_settled env d a" and others: "list_all (album_settled env d) als"
    by simp_all
  from here obtain ttl where ttl: "album_title_of env a = Returned ttl"
    by (auto simp: album_settled_def split: outcome.splits)
  from update_album_incremental_skip[OF here Cons.prems(2) ttl] obtain s1 where
    u: "update_album_incremental env (al_id a) ttl s = Some (Returned (), s1)"
    and c: "same_core s s1"
    by blast
  from c Cons.prems(2) have "covers s1 d" by (rule covers_same_core)
  from Cons.IH[OF others this] obtain s' where
    rest: "albums_loop env als s1 = Some (Returned (), s')" and c': "same_core s1 s'"
    by blast
  from c c' have "same_core s s'" by (rule same_core_trans)
  moreover have "albums_loop env (a # als) s = Some (Returned (), s')"
    by (simp add: ttl u rest)
  ultimately show ?case by blast
qed

text \<open>
  Against a remote whose details keep the id of the photo asked for, a run that reports
  no failed item and no failed album leaves a store on which the next run, against the
  same remote, returns normally, counts no new photo and no new association, and leaves
  the photo rows and the link rows as they are.
\<close>

theorem error_free_run_is_fixpoint:
  assumes run: "comprehensive_update env (init_updater d) = Some (Returned (), s1)"
    and quiet: "error_free s1"
    and keeps: "detail_keeps_id env"
  shows "\<exists>s2. comprehensive_update env (init_updater (store s1)) = Some (Returned (), s2) \<and>
              new_photos_count s2 = 0 \<and> new_associations_count s2 = 0 \<and>
              photos (store s2) = photos (store s1) \<and>
              photo_albums (store s2) = photo_albums (store s1)"
proof -
  let ?i = "init_updater d"
  let ?j = "init_updater (store s1)"
  from run obtain sa where p: "update_photostream env ?i = Some sa"
    and a: "update_albums env sa = Some (Returned (), s1)"
    by (auto simp: comprehensive_update_def split: option.splits)
  from p obtain all_photos evs where
    f: "photostream_from env 1 [] [] = Some (all_photos, evs)"
    and sa: "sa = photostream_items env
                    (filter (\<lambda>p. \<not> photo_exists ?i (ph_id p)) all_photos)
                    (emits (Log (MsgCheckingPhotostream 90) # evs) ?i)"
    by (auto simp: update_photostream_def get_recent_photostream_photos_def
          split: option.splits prod.splits)
  have e1: "extends sa s1"
    using a extends_refl by (rule extends_update_albums)
  have "synced ?i"
    by (simp add: synced_def init_updater_def get_existing_photo_ids_def photo_ids_def)
  then have "synced (emits (Log (MsgCheckingPhotostream 90) # evs) ?i)"
    using same_core_emits same_core_synced by blast
  moreover have "error_free sa"
    using e1 quiet by (rule error_free_back)
  ultimately have sa_ok: "synced sa"
    "list_all (\<lambda>p. ph_id p \<in> photo_ids (store sa))
       (filter (\<lambda>p. \<not> photo_exists ?i (ph_id p)) all_photos)"
    using photostream_items_synced keeps unfolding sa by blast+
  have e0: "extends ?i sa"
    using p extends_refl by (rule extends_update_photostream)
  have stream: "ph_id p \<in> photo_ids (store s1)" if "p \<in> set all_photos" for p
  proof (cases "photo_exists ?i (ph_id p)")
    case True
    then have "ph_id p \<in> photo_ids (store ?i)"
      by (simp add: photo_exists_def init_updater_def get_existing_photo_ids_def photo_ids_def)
    then show ?thesis
      using extends_photo_ids[OF e0] extends_photo_ids[OF e1] by blast
  next
    case False
    with that sa_ok(2) have "ph_id p \<in> photo_ids (store sa)"
      by (auto simp: list_all_iff)
    then show ?thesis
      using extends_photo_ids[OF e1] by blast
  qed
  have idx: "existing_photo_ids ?j = photo_ids (store s1)"
    by (simp add: init_updater_def get_existing_photo_ids_def photo_ids_def)
  have "filter (\<lambda>p. \<not> photo_exists ?j (ph_id p)) all_photos = []"
    using stream by (auto simp: filter_empty_conv photo_exists_def idx)
  then have p2: "update_photostream env ?j =
      Some (emits (Log (MsgCheckingPhotostream 90) # evs) ?j)"
    using f by (simp add: update_photostream_def get_recent_photostream_photos_def)
  let ?sb = "emits (Log (MsgCheckingPhotostream 90) # evs) ?j"
  have cb: "same_core ?j ?sb" by (rule same_core_emits)
  have zero: "new_photos_count ?j = 0" "new_associations_count ?j = 0" "store ?j = store s1"
    by (simp_all add: init_updater_def)
  from a obtain r0 evs' where g: "get_user_albums env = Some (r0, evs')"
    by (auto simp: update_albums_def split: option.splits prod.splits)
  have "\<exists>s2. update_albums env ?sb = Some (Returned (), s2) \<and> same_core ?sb s2"
  proof (cases r0)
    case (Raised x)
    then show ?thesis
      by (simp add: update_albums_def g same_core_def emit_def emits_def)
  next
    case (Returned als)
    with a g have loop: "albums_loop env als (emits evs' sa) = Some (Returned (), s1)"
      by (simp add: update_albums_def)
    have "synced (emits evs' sa)"
      using sa_ok(1) same_core_emits same_core_synced by blast
    with loop quiet keeps have settled: "list_all (album_settled env (store s1)) als"
      using albums_loop_synced by blast
    have "covers ?j (store s1)"
      by (simp add: covers_def init_updater_def get_existing_photo_ids_def photo_ids_def)
    with cb have "covers ?sb (store s1)" by (rule covers_same_core)
    then have "covers (emits evs' ?sb) (store s1)"
      using same_core_emits covers_same_core by blast
    from albums_loop_skip[OF settled this] obtain s2 where
      l2: "albums_loop env als (emits evs' ?sb) = Some (Returned (), s2)"
      and c2: "same_core (emits evs' ?sb) s2"
      by blast
    have "same_core ?sb s2"
      using same_core_emits c2 by (rule same_core_trans)
    moreover have "update_albums env ?sb = Some (Returned (), s2)"
      by (simp add: update_albums_def g Returned l2)
    ultimately show ?thesis by blast
  qed
  then obtain s2 where u2: "update_albums env ?sb = Some (Returned (), s2)"
    and c2: "same_core ?sb s2"
    by blast
  from cb c2 have "same_core ?j s2" by (rule same_core_trans)
  with zero have "new_photos_count s2 = 0" "new_associations_count s2 = 0"
    "photos (store s2) = photos (store s1)" "photo_albums (store s2) = photo_albums (store s1)"
    by (simp_all add: same_core_def)
  moreover have "comprehensive_update env ?j = Some (Returned (), s2)"
    by (simp add: comprehensive_update_def p2 u2)
  ultimately show ?thesis by blast
qed

theorem error_free_run_is_fixpoint_witness:
  "\<exists>s1 s2. comprehensive_update trip_env (init_updater empty_db) = Some (Returned (), s1) \<and>
      error_free s1 \<and> detail_keeps_id trip_env \<and> new_photos_count s1 = 2 \<and> new_associations_count s1 = 2 \<and>
      comprehensive_update trip_env (init_updater (store s1)) = Some (Returned (), s2) \<and>
      new_photos_count s2 = 0 \<and> new_associations_count s2 = 0"
proof -
  have "case comprehensive_update trip_env (init_updater empty_db) of
          None \<Rightarrow> False
        | Some (r, s1) \<Rightarrow>
            r = Returned () \<and> error_free s1 \<and> new_photos_count s1 = 2 \<and>
            new_associations_count s1 = 2"
    by code_simp
  then obtain s1 where run: "comprehensive_update trip_env (init_updater empty_db) = Some (Returned (), s1)"
    and quiet: "error_free s1" and n: "new_photos_count s1 = 2" "new_associations_count s1 = 2"
    by (auto split: option.splits)
  have keeps: "detail_keeps_id trip_env"
    by (simp add: detail_keeps_id_def trip_env_def quiet_env_def)
  from error_free_run_is_fixpoint[OF run quiet keeps] obtain s2 where
    "comprehensive_update trip_env (init_updater (store s1)) = Some (Returned (), s2)"
    "new_photos_count s2 = 0" "new_associations_count s2 = 0"
    by blast
  with run quiet keeps n show ?thesis by blast
qed

end
